theory Spec2Isabelle
  imports Main "HOL-Library.Multiset"
begin

section \<open>Data model of the sharded optimizer (fairscale/optim/oss.py)\<close>

text \<open>
  A Parameter is a tensor object compared by reference identity; the model names it by
  its address. Its element count (\<open>param.numel()\<close>) is an immutable attribute read
  through a function \<open>numel\<close> that every operation receives. Calls into the tensor
  library and into the communication library are taken to return normally.
\<close>

type_synonym param = nat

text \<open>
  A ParamGroup is a Python dict with the key \<open>"params"\<close> (a list of Parameters) and
  hyperparameter keys. The record keeps the two apart: \<open>params\<close> is the value under
  \<open>"params"\<close>, \<open>hyper\<close> maps every other key to its value.
\<close>

record 'v param_group =
  params :: "param list"
  hyper :: "string \<rightharpoonup> 'v"

datatype py_error = ValueError | IndexError | KeyError | TypeError

text \<open>
  Values that travel in state dicts. The optimizer-specific state and the saved group
  dicts are opaque; lists, tuples, integers and booleans are what \<open>state_dict\<close> and
  \<open>rank_local_state_dict\<close> build and take apart. A state dict itself is a Python dict
  with string keys.
\<close>

datatype 'a py_value =
    PyBool bool
  | PyInt int
  | PyTuple "'a py_value list"
  | PyList "'a py_value list"
  | PyOpaque 'a

type_synonym 'a py_dict = "string \<rightharpoonup> 'a py_value"

text \<open>
  The fields of an \<open>OSS\<close> instance that the modelled methods read or write.
  \<open>partition_memo\<close> is \<open>self._partition_parameters\<close>, \<open>all_states\<close> is
  \<open>self._all_states\<close>, \<open>optim_param_groups\<close> is \<open>self.optim.param_groups\<close>,
  \<open>grad\<close> holds the \<open>.grad\<close> attribute of every Parameter (\<open>None\<close> when freed) and
  \<open>warnings\<close> collects the messages passed to \<open>logging.warning\<close>.

  The wrapped optimizer keeps the dict objects it is given. The constructor hands it
  this rank's records of the memo (\<open>optim(self.partition_parameters()[self.rank], ...)\<close>),
  so a group of \<open>self.optim.param_groups\<close> and the memo's record at the same position
  are one object; \<open>add_param_group\<close> builds a fresh memo and hands over its last record
  only. \<open>shared_from\<close> is the position from which the groups of the wrapped optimizer
  are the memo's records of this rank: the model holds their value twice, and a write
  to one is a write to both.
\<close>

record ('v, 'g, 'a) oss =
  param_groups :: "'v param_group list"
  world_size :: nat
  rank :: nat
  partition_memo :: "'v param_group list list"
  optim_param_groups :: "'v param_group list"
  shared_from :: nat
  all_states :: "'a py_dict list"
  grad :: "param \<Rightarrow> 'g option"
  warnings :: "string list"

section \<open>Partitioning (OSS.partition\_parameters)\<close>

text \<open>\<open>min(sizes)\<close>: raises ValueError on an empty list.\<close>

fun py_min :: "nat list \<Rightarrow> py_error + nat" where
  "py_min [] = Inl ValueError"
| "py_min (x # xs) = Inr (fold min xs x)"

text \<open>\<open>sizes.index(v)\<close>: the first position holding \<open>v\<close>, ValueError when there is none.\<close>

fun py_index :: "nat list \<Rightarrow> nat \<Rightarrow> py_error + nat" where
  "py_index [] v = Inl ValueError"
| "py_index (x # xs) v =
     (if x = v then Inr 0
      else (case py_index xs v of Inl e \<Rightarrow> Inl e | Inr i \<Rightarrow> Inr (Suc i)))"

text \<open>
  The inner loop \<open>for param in param_group["params"]\<close>. Both \<open>param_lists\<close> and
  \<open>sizes\<close> have \<open>world_size\<close> entries and \<open>rank\<close> is a position of \<open>sizes\<close>, so the
  two indexed updates are in range.
\<close>

fun assign_params ::
  "(param \<Rightarrow> nat) \<Rightarrow> param list \<Rightarrow> param list list \<times> nat list
     \<Rightarrow> py_error + (param list list \<times> nat list)" where
  "assign_params numel [] (param_lists, sizes) = Inr (param_lists, sizes)"
| "assign_params numel (p # ps) (param_lists, sizes) =
     (case py_min sizes of
        Inl e \<Rightarrow> Inl e
      | Inr m \<Rightarrow>
          (case py_index sizes m of
             Inl e \<Rightarrow> Inl e
           | Inr rnk \<Rightarrow>
               assign_params numel ps
                 (param_lists[rnk := param_lists ! rnk @ [p]],
                  sizes[rnk := sizes ! rnk + numel p])))"

text \<open>
  The loop \<open>for rank, params in enumerate(param_lists)\<close>: a shallow copy of the group
  with its \<open>"params"\<close> replaced is appended to the rank's list of records. The
  partition and \<open>param_lists\<close> both have \<open>world_size\<close> entries, so every index is in
  range.
\<close>

definition append_group_records ::
  "'v param_group \<Rightarrow> param list list \<Rightarrow> 'v param_group list list
     \<Rightarrow> 'v param_group list list" where
  "append_group_records param_group param_lists part =
     fold (\<lambda>rnk acc. acc[rnk := acc ! rnk @ [param_group\<lparr>params := param_lists ! rnk\<rparr>]])
       [0..<length param_lists] part"

text \<open>The outer loop \<open>for param_group in self.param_groups\<close>; \<open>sizes\<close> is never reset.\<close>

fun partition_groups ::
  "(param \<Rightarrow> nat) \<Rightarrow> nat \<Rightarrow> 'v param_group list
     \<Rightarrow> 'v param_group list list \<times> nat list
     \<Rightarrow> py_error + ('v param_group list list \<times> nat list)" where
  "partition_groups numel ws [] (part, sizes) = Inr (part, sizes)"
| "partition_groups numel ws (g # gs) (part, sizes) =
     (case assign_params numel (params g) (replicate ws [], sizes) of
        Inl e \<Rightarrow> Inl e
      | Inr (param_lists, sizes') \<Rightarrow>
          partition_groups numel ws gs (append_group_records g param_lists part, sizes'))"

text \<open>
  \<open>partition_parameters\<close>: computed when the memo is empty, stored in the memo, and
  returned from the memo afterwards.
\<close>

definition partition_parameters ::
  "(param \<Rightarrow> nat) \<Rightarrow> ('v, 'g, 'a) oss
     \<Rightarrow> py_error + ('v param_group list list \<times> ('v, 'g, 'a) oss)" where
  "partition_parameters numel s =
     (if length (partition_memo s) = 0 then
        (case partition_groups numel (world_size s) (param_groups s)
                (replicate (world_size s) [], replicate (world_size s) 0) of
           Inl e \<Rightarrow> Inl e
         | Inr (part, sizes) \<Rightarrow> Inr (part, s\<lparr>partition_memo := part\<rparr>))
      else Inr (partition_memo s, s))"

section \<open>The optimizer step up to the wrapped optimizer (OSS.step)\<close>

text \<open>
  \<open>_sync_param_groups\<close>: over \<open>zip(self.param_groups, self.optim.param_groups)\<close>, for
  every key of the local group other than \<open>"params"\<close>: copied into the global group
  when \<open>local_to_global\<close>, otherwise overwritten from the global group when the global
  group has the key. Groups beyond the shorter list are not visited.
\<close>

definition sync_group_to_global :: "'v param_group \<Rightarrow> 'v param_group \<Rightarrow> 'v param_group" where
  "sync_group_to_global global_group local_group =
     global_group\<lparr>hyper := hyper global_group ++ hyper local_group\<rparr>"

definition sync_group_to_local :: "'v param_group \<Rightarrow> 'v param_group \<Rightarrow> 'v param_group" where
  "sync_group_to_local global_group local_group =
     local_group\<lparr>hyper := (\<lambda>k. if hyper local_group k \<noteq> None \<and> hyper global_group k \<noteq> None
                                then hyper global_group k else hyper local_group k)\<rparr>"

text \<open>
  The hyperparameters written into the local groups \<open>locals\<close> at the positions below
  \<open>n\<close>, seen through the memo's records \<open>recs\<close> of this rank: the records from
  \<open>shared\<close> on are those local groups.
\<close>

definition write_shared ::
  "nat \<Rightarrow> nat \<Rightarrow> 'v param_group list \<Rightarrow> 'v param_group list \<Rightarrow> 'v param_group list" where
  "write_shared shared n locals recs =
     map (\<lambda>(i, r). if shared \<le> i \<and> i < n then r\<lparr>hyper := hyper (locals ! i)\<rparr> else r)
       (enumerate 0 recs)"

definition sync_param_groups :: "bool \<Rightarrow> ('v, 'g, 'a) oss \<Rightarrow> ('v, 'g, 'a) oss" where
  "sync_param_groups local_to_global s =
     (let n = min (length (param_groups s)) (length (optim_param_groups s)) in
      if local_to_global then
        s\<lparr>param_groups :=
            map2 sync_group_to_global (param_groups s) (optim_param_groups s)
              @ drop n (param_groups s)\<rparr>
      else
        (let locals = map2 sync_group_to_local (param_groups s) (optim_param_groups s)
                        @ drop n (optim_param_groups s)
         in s\<lparr>optim_param_groups := locals,
              partition_memo :=
                (if rank s < length (partition_memo s)
                 then (partition_memo s)
                        [rank s := write_shared (shared_from s) n locals (partition_memo s ! rank s)]
                 else partition_memo s)\<rparr>))"

text \<open>
  The constructor, from \<open>self._partition_parameters = []\<close> to the read of the default
  device. \<open>optim_init\<close> is the constructor of the wrapped optimizer: it is given this
  rank's records of the partition and returns what those dict objects hold afterwards
  (it may add its default hyperparameters). The records stay in the memo and become
  \<open>self.optim.param_groups\<close>. The loop that follows copies every key of a local group
  other than \<open>"params"\<close> into the global group, as \<open>_sync_param_groups\<close> does with
  \<open>local_to_global\<close>. The default device is read from
  \<open>self.partition_parameters()[self.rank][0]["params"][0]\<close>, which raises IndexError
  when this rank has no group or its first record has no parameter. The allocation of
  the broadcast buffers that ends the constructor reads devices and dtypes, which the
  model does not hold.
\<close>

definition oss_init ::
  "('v param_group list \<Rightarrow> py_error + 'v param_group list) \<Rightarrow> (param \<Rightarrow> nat)
     \<Rightarrow> ('v, 'g, 'a) oss \<Rightarrow> py_error + ('v, 'g, 'a) oss" where
  "oss_init optim_init numel s =
     (case partition_parameters numel (s\<lparr>partition_memo := []\<rparr>) of
        Inl e \<Rightarrow> Inl e
      | Inr (part, s1) \<Rightarrow>
          if \<not> rank s1 < length part then Inl IndexError
          else
            (case optim_init (part ! rank s1) of
               Inl e \<Rightarrow> Inl e
             | Inr groups \<Rightarrow>
                 (let s2 = sync_param_groups True
                             (s1\<lparr>partition_memo := part[rank s1 := groups],
                                 optim_param_groups := groups, shared_from := 0\<rparr>);
                      s3 = s2\<lparr>all_states := []\<rparr>
                  in (case partition_memo s3 ! rank s3 of
                        [] \<Rightarrow> Inl IndexError
                      | g # _ \<Rightarrow>
                          (case params g of [] \<Rightarrow> Inl IndexError | t # _ \<Rightarrow> Inr s3)))))"

text \<open>\<open>for t in p["params"]: t.grad = None\<close>\<close>

definition free_grads :: "param list \<Rightarrow> (param \<Rightarrow> 'g option) \<Rightarrow> (param \<Rightarrow> 'g option)" where
  "free_grads ts gr = fold (\<lambda>t gr'. gr'(t := None)) ts gr"

text \<open>
  \<open>_free_other_grads\<close>: over \<open>enumerate(self.partition_parameters())\<close>, the rank equal
  to \<open>self.rank\<close> is skipped, every group record of every other rank is walked.
\<close>

definition free_other_grads ::
  "(param \<Rightarrow> nat) \<Rightarrow> ('v, 'g, 'a) oss \<Rightarrow> py_error + ('v, 'g, 'a) oss" where
  "free_other_grads numel s =
     (case partition_parameters numel s of
        Inl e \<Rightarrow> Inl e
      | Inr (part, s') \<Rightarrow>
          Inr (fold (\<lambda>(rnk, partition) st.
                       if rnk = rank st then st
                       else fold (\<lambda>p st'. st'\<lparr>grad := free_grads (params p) (grad st')\<rparr>)
                              partition st)
                 (enumerate 0 part) s'))"

text \<open>
  \<open>step\<close>. The wrapped optimizer's step (with or without the closure) and the
  broadcast of the updated shards are collaborators: \<open>optim_step\<close> receives the closure
  and the state in which \<open>self.optim.step\<close> is called, \<open>broadcast_shards\<close> stands for
  the loop over \<open>self.per_device_params\<close>.
\<close>

definition step ::
  "(param \<Rightarrow> nat)
     \<Rightarrow> ('c option \<Rightarrow> ('v, 'g, 'a) oss \<Rightarrow> py_error + ('l \<times> ('v, 'g, 'a) oss))
     \<Rightarrow> (('v, 'g, 'a) oss \<Rightarrow> py_error + ('v, 'g, 'a) oss)
     \<Rightarrow> 'c option \<Rightarrow> ('v, 'g, 'a) oss \<Rightarrow> py_error + ('l \<times> ('v, 'g, 'a) oss)" where
  "step numel optim_step broadcast_shards closure s =
     (case free_other_grads numel (sync_param_groups False s) of
        Inl e \<Rightarrow> Inl e
      | Inr s1 \<Rightarrow>
          (case optim_step closure s1 of
             Inl e \<Rightarrow> Inl e
           | Inr (loss, s2) \<Rightarrow>
               (case broadcast_shards s2 of
                  Inl e \<Rightarrow> Inl e
                | Inr s3 \<Rightarrow> Inr (loss, sync_param_groups True s3))))"

section \<open>Broadcast of the updated shards (OSS.\_broadcast\_params)\<close>

text \<open>
  A broadcast is issued on a tensor: the scratch buffer of a rank (\<open>buffers[src_rank]\<close>)
  or the data of one parameter. The handle that \<open>dist.broadcast(..., async_op=True)\<close>
  returns is named by the call that made it: the tensor and the source's global rank.
  The calls on the communication library and the copies between tensors are recorded,
  in program order, in a trace.
\<close>

datatype tensor = Buffer nat | ParamData param

type_synonym work_handle = "tensor \<times> nat"

datatype event =
    CopyIn nat param nat nat
  | Broadcast tensor nat
  | Wait work_handle
  | CopyOut param nat nat nat

text \<open>
  \<open>CopyIn r p offset end\<close> is \<open>buffer[offset:end].copy_(p.data.view(-1))\<close> on the buffer
  of rank \<open>r\<close>; \<open>CopyOut p r offset end\<close> is
  \<open>p.data.copy_(buffers[r][offset:end].view_as(p.data))\<close>.
\<close>

type_synonym bucket_entry = "param \<times> nat \<times> nat"

type_synonym bucket_request = "work_handle \<times> nat \<times> bucket_entry list"

text \<open>
  The local variables of \<open>_broadcast_params\<close>: the two request lists live for the whole
  call, \<open>offset\<close>, \<open>bucket_sent\<close> and \<open>bucket_params\<close> are reset for every rank.
  \<open>bucket_params\<close> is appended to a request as the list object itself; it is not
  mutated once a request holds it (no parameter is packed after \<open>bucket_sent\<close>, and
  the trailing request is made after the loop), so the request holds its final value.
\<close>

record broadcast_vars =
  bucket_requests :: "bucket_request list"
  direct_requests :: "work_handle list"
  offset :: nat
  bucket_sent :: bool
  bucket_params :: "bucket_entry list"
  trace :: "event list"

text \<open>\<open>get_global_rank\<close>: the identity on the WORLD group (\<open>None\<close>), the group's table otherwise.\<close>

definition get_global_rank :: "(nat \<Rightarrow> nat) option \<Rightarrow> nat \<Rightarrow> nat" where
  "get_global_rank grp rnk = (case grp of None \<Rightarrow> rnk | Some table \<Rightarrow> table rnk)"

text \<open>Appending the bucket's broadcast to \<open>bucket_requests\<close>.\<close>

definition send_bucket :: "nat \<Rightarrow> nat \<Rightarrow> broadcast_vars \<Rightarrow> broadcast_vars" where
  "send_bucket src_rank global_src_rank st =
     st\<lparr>bucket_requests :=
          bucket_requests st @ [((Buffer src_rank, global_src_rank), src_rank, bucket_params st)],
        trace := trace st @ [Broadcast (Buffer src_rank) global_src_rank]\<rparr>"

text \<open>The body of the loop \<open>for p in params\<close>.\<close>

definition pack_param ::
  "(param \<Rightarrow> nat) \<Rightarrow> nat \<Rightarrow> nat \<Rightarrow> nat \<Rightarrow> param \<Rightarrow> broadcast_vars \<Rightarrow> broadcast_vars" where
  "pack_param numel buffer_size src_rank global_src_rank p st =
     (if \<not> bucket_sent st \<and> offset st + numel p < buffer_size then
        (let endp = offset st + numel p in
         st\<lparr>bucket_params := bucket_params st @ [(p, offset st, endp)],
            offset := endp,
            trace := trace st @ [CopyIn src_rank p (offset st) endp]\<rparr>)
      else
        (let st1 = (if offset st > 0 \<and> \<not> bucket_sent st
                    then (send_bucket src_rank global_src_rank st)\<lparr>bucket_sent := True\<rparr>
                    else st)
         in st1\<lparr>direct_requests := direct_requests st1 @ [(ParamData p, global_src_rank)],
                trace := trace st1 @ [Broadcast (ParamData p) global_src_rank]\<rparr>))"

definition pack_params ::
  "(param \<Rightarrow> nat) \<Rightarrow> nat \<Rightarrow> nat \<Rightarrow> nat \<Rightarrow> param list \<Rightarrow> broadcast_vars \<Rightarrow> broadcast_vars" where
  "pack_params numel buffer_size src_rank global_src_rank ps st =
     fold (pack_param numel buffer_size src_rank global_src_rank) ps st"

text \<open>The body of the loop over the ranks, with the trailing bucket.\<close>

definition issue_rank ::
  "(param \<Rightarrow> nat) \<Rightarrow> nat \<Rightarrow> (nat \<Rightarrow> nat) option \<Rightarrow> nat \<times> param list
     \<Rightarrow> broadcast_vars \<Rightarrow> broadcast_vars" where
  "issue_rank numel buffer_size grp = (\<lambda>(src_rank, ps) st.
     (let global_src_rank = get_global_rank grp src_rank;
          st1 = pack_params numel buffer_size src_rank global_src_rank ps
                  (st\<lparr>offset := 0, bucket_sent := False, bucket_params := []\<rparr>)
      in if \<not> bucket_sent st1 then send_bucket src_rank global_src_rank st1 else st1))"

text \<open>
  \<open>zip(enumerate(per_rank_params), buffers)\<close> stops at the shorter of the two lists;
  only the length of \<open>buffers\<close> and the element count of its first tensor are read.
\<close>

definition issue_all ::
  "(param \<Rightarrow> nat) \<Rightarrow> nat \<Rightarrow> (nat \<Rightarrow> nat) option \<Rightarrow> nat list \<Rightarrow> param list list
     \<Rightarrow> broadcast_vars" where
  "issue_all numel buffer_size grp buffers per_rank_params =
     fold (issue_rank numel buffer_size grp)
       (map fst (zip (enumerate 0 per_rank_params) buffers))
       \<lparr>bucket_requests = [], direct_requests = [], offset = 0, bucket_sent = False,
        bucket_params = [], trace = []\<rparr>"

text \<open>The loop over \<open>bucket_requests\<close>: wait, then unpack unless the source is this rank.\<close>

definition unpack_bucket :: "nat \<Rightarrow> bucket_request \<Rightarrow> event list" where
  "unpack_bucket self_rank = (\<lambda>(work_handle, src_rank, bps).
     Wait work_handle #
       (if src_rank \<noteq> self_rank
        then map (\<lambda>(p, off, endp). CopyOut p src_rank off endp) bps
        else []))"

definition broadcast_params ::
  "(param \<Rightarrow> nat) \<Rightarrow> (nat \<Rightarrow> nat) option \<Rightarrow> nat \<Rightarrow> nat list \<Rightarrow> param list list
     \<Rightarrow> py_error + broadcast_vars" where
  "broadcast_params numel grp self_rank buffers per_rank_params =
     (case buffers of
        [] \<Rightarrow> Inl IndexError
      | b # _ \<Rightarrow>
          (let st = issue_all numel b grp buffers per_rank_params in
           Inr (st\<lparr>trace := trace st
                       @ concat (map (unpack_bucket self_rank) (bucket_requests st))
                       @ map Wait (direct_requests st)\<rparr>)))"

section \<open>Checkpoints (OSS.state\_dict, OSS.rank\_local\_state\_dict)\<close>

text \<open>
  \<open>local_state_dict\<close> returns \<open>self.optim.state_dict()\<close>; the wrapped optimizer is a
  collaborator, \<open>sd\<close> gives the dict it returns in a state.
\<close>

definition local_state_dict :: "(('v, 'g, 'a) oss \<Rightarrow> 'a py_dict) \<Rightarrow> ('v, 'g, 'a) oss \<Rightarrow> 'a py_dict" where
  "local_state_dict sd s = sd s"

text \<open>What \<open>extend\<close> and \<open>len\<close> accept: a list or a tuple.\<close>

fun py_elements :: "'a py_value \<Rightarrow> py_error + 'a py_value list" where
  "py_elements (PyList xs) = Inr xs"
| "py_elements (PyTuple xs) = Inr xs"
| "py_elements v = Inl TypeError"

text \<open>The loop \<open>for i, s in enumerate(self._all_states)\<close> of \<open>state_dict\<close>.\<close>

fun flatten_shards ::
  "'a py_dict list \<Rightarrow> int \<times> 'a py_value list \<times> 'a py_value list
     \<Rightarrow> py_error + (int \<times> 'a py_value list \<times> 'a py_value list)" where
  "flatten_shards [] (start, ptn, pgroups) = Inr (start, ptn, pgroups)"
| "flatten_shards (s # ss) (start, ptn, pgroups) =
     (case s ''param_groups'' of
        None \<Rightarrow> Inl KeyError
      | Some v \<Rightarrow>
          (case py_elements v of
             Inl e \<Rightarrow> Inl e
           | Inr gs \<Rightarrow>
               (let endp = start + int (length gs) in
                flatten_shards ss
                  (endp, ptn @ [PyTuple [PyInt start, PyInt endp]], pgroups @ gs))))"

text \<open>\<open>[s["state"] for s in self._all_states]\<close>\<close>

fun shard_states :: "'a py_dict list \<Rightarrow> py_error + 'a py_value list" where
  "shard_states [] = Inr []"
| "shard_states (s # ss) =
     (case s ''state'' of
        None \<Rightarrow> Inl KeyError
      | Some v \<Rightarrow> (case shard_states ss of Inl e \<Rightarrow> Inl e | Inr vs \<Rightarrow> Inr (v # vs)))"

definition state_dict ::
  "(('v, 'g, 'a) oss \<Rightarrow> 'a py_dict) \<Rightarrow> ('v, 'g, 'a) oss
     \<Rightarrow> (py_error + 'a py_dict) \<times> ('v, 'g, 'a) oss" where
  "state_dict sd s =
     (if length (all_states s) = 0 then
        (Inr ((local_state_dict sd s)(''local_state_dict'' \<mapsto> PyBool True)),
         s\<lparr>warnings := warnings s @
              [''Optimizer state has not been consolidated. Returning the local state'',
               ''Please call `consolidate_state_dict()` beforehand if you meant to save the global state'']\<rparr>)
      else
        (case flatten_shards (all_states s) (0, [], []) of
           Inl e \<Rightarrow> (Inl e, s)
         | Inr (start, ptn, pgroups) \<Rightarrow>
             (case shard_states (all_states s) of
                Inl e \<Rightarrow> (Inl e, s)
              | Inr sts \<Rightarrow>
                  (Inr [''state'' \<mapsto> PyList sts,
                        ''param_groups'' \<mapsto> PyList pgroups,
                        ''partition'' \<mapsto> PyList ptn,
                        ''local_state_dict'' \<mapsto> PyBool False], s))))"

text \<open>\<open>xs[i]\<close> on a list or tuple: a negative index counts from the end.\<close>

definition py_nth :: "'a list \<Rightarrow> int \<Rightarrow> py_error + 'a" where
  "py_nth xs i =
     (if 0 \<le> i \<and> i < int (length xs) then Inr (xs ! nat i)
      else if i < 0 \<and> - int (length xs) \<le> i then Inr (xs ! nat (int (length xs) + i))
      else Inl IndexError)"

fun py_getitem :: "'a py_value \<Rightarrow> int \<Rightarrow> py_error + 'a py_value" where
  "py_getitem (PyList xs) i = py_nth xs i"
| "py_getitem (PyTuple xs) i = py_nth xs i"
| "py_getitem v i = Inl TypeError"

text \<open>
  \<open>xs[a:b]\<close>: each bound is counted from the end when negative and clamped to the
  length; the slice is empty when the bounds cross.
\<close>

definition slice_bound :: "nat \<Rightarrow> int \<Rightarrow> nat" where
  "slice_bound n i = (if i < 0 then nat (max (int n + i) 0) else min (nat i) n)"

definition py_slice_list :: "'a list \<Rightarrow> int \<Rightarrow> int \<Rightarrow> 'a list" where
  "py_slice_list xs a b =
     (let lo = slice_bound (length xs) a; hi = slice_bound (length xs) b
      in take (hi - lo) (drop lo xs))"

text \<open>A slice bound is an integer; a \<open>bool\<close> is the integer 1 or 0.\<close>

fun py_bound :: "'a py_value \<Rightarrow> py_error + int" where
  "py_bound (PyInt i) = Inr i"
| "py_bound (PyBool b) = Inr (if b then 1 else 0)"
| "py_bound v = Inl TypeError"

fun py_sequence :: "'a py_value \<Rightarrow> int \<Rightarrow> int \<Rightarrow> py_error + 'a py_value" where
  "py_sequence (PyList xs) a b = Inr (PyList (py_slice_list xs a b))"
| "py_sequence (PyTuple xs) a b = Inr (PyTuple (py_slice_list xs a b))"
| "py_sequence v a b = Inl TypeError"

definition py_slice :: "'a py_value \<Rightarrow> 'a py_value \<Rightarrow> 'a py_value \<Rightarrow> py_error + 'a py_value" where
  "py_slice v lo hi =
     (case py_bound lo of
        Inl e \<Rightarrow> Inl e
      | Inr a \<Rightarrow> (case py_bound hi of Inl e \<Rightarrow> Inl e | Inr b \<Rightarrow> py_sequence v a b))"

definition rank_local_state_dict :: "int \<Rightarrow> 'a py_dict \<Rightarrow> py_error + 'a py_dict" where
  "rank_local_state_dict rnk d =
     (case d ''param_groups'' of None \<Rightarrow> Inl KeyError | Some pgs \<Rightarrow>
      (case d ''partition'' of None \<Rightarrow> Inl KeyError | Some pt \<Rightarrow>
       (case py_getitem pt rnk of Inl e \<Rightarrow> Inl e | Inr bounds \<Rightarrow>
        (case py_getitem bounds 0 of Inl e \<Rightarrow> Inl e | Inr a \<Rightarrow>
         (case py_getitem bounds 1 of Inl e \<Rightarrow> Inl e | Inr b \<Rightarrow>
          (case py_slice pgs a b of Inl e \<Rightarrow> Inl e | Inr shard_groups \<Rightarrow>
           (case d ''state'' of None \<Rightarrow> Inl KeyError | Some sts \<Rightarrow>
            (case py_getitem sts rnk of Inl e \<Rightarrow> Inl e | Inr st \<Rightarrow>
               Inr [''state'' \<mapsto> st, ''param_groups'' \<mapsto> shard_groups]))))))))"

text \<open>
  \<open>consolidate_state_dict\<close>: on the recipient rank \<open>_collect_sharded_states\<close> stores one
  dict per rank, its own \<open>local_state_dict()\<close> and, for every other rank, what
  \<open>broadcast_object\<close> delivered (\<open>received\<close>); the other ranks only take part in the
  broadcasts.
\<close>

definition collect_sharded_states ::
  "(('v, 'g, 'a) oss \<Rightarrow> 'a py_dict) \<Rightarrow> (nat \<Rightarrow> 'a py_dict) \<Rightarrow> ('v, 'g, 'a) oss
     \<Rightarrow> 'a py_dict list" where
  "collect_sharded_states sd received s =
     map (\<lambda>r. if r = rank s then local_state_dict sd s else received r) [0..<world_size s]"

definition consolidate_state_dict ::
  "(('v, 'g, 'a) oss \<Rightarrow> 'a py_dict) \<Rightarrow> (nat \<Rightarrow> 'a py_dict) \<Rightarrow> nat \<Rightarrow> ('v, 'g, 'a) oss
     \<Rightarrow> ('v, 'g, 'a) oss" where
  "consolidate_state_dict sd received recipient_rank s =
     (let s1 = sync_param_groups False s in
      if rank s1 = recipient_rank
      then s1\<lparr>all_states := collect_sharded_states sd received s1\<rparr>
      else s1)"

section \<open>Vocabulary of the stated properties\<close>

text \<open>
  The total element count held by a rank (over all its group records), the element
  count of the largest parameter of the global groups (0 when there is none), and
  running sizes that differ pairwise by at most \<open>m\<close>.
\<close>

definition rank_total :: "(param \<Rightarrow> nat) \<Rightarrow> 'v param_group list \<Rightarrow> nat" where
  "rank_total numel recs = sum_list (map numel (concat (map params recs)))"

definition largest_numel :: "(param \<Rightarrow> nat) \<Rightarrow> 'v param_group list \<Rightarrow> nat" where
  "largest_numel numel gs = fold max (map numel (concat (map params gs))) 0"

definition balanced :: "nat \<Rightarrow> nat list \<Rightarrow> bool" where
  "balanced m sz \<longleftrightarrow> (\<forall>r<length sz. \<forall>r'<length sz. sz ! r \<le> sz ! r' + m)"





text \<open>
  The handle an event issues, the events that complete a request (a wait, or a copy out
  of a received buffer), and the invariant of the issuing phase: nothing has been
  completed, and the broadcasts issued so far are exactly the requests held.
\<close>

fun issued :: "event \<Rightarrow> work_handle list" where
  "issued (Broadcast t g) = [(t, g)]"
| "issued e = []"

fun is_completion :: "event \<Rightarrow> bool" where
  "is_completion (Wait h) = True"
| "is_completion (CopyOut p r off endp) = True"
| "is_completion e = False"

definition issue_inv :: "broadcast_vars \<Rightarrow> bool" where
  "issue_inv st \<longleftrightarrow>
     (\<forall>e\<in>set (trace st). \<not> is_completion e)
     \<and> mset (concat (map issued (trace st))) =
         mset (map fst (bucket_requests st)) + mset (direct_requests st)"

text \<open>
  For the checkpoints: a collected shard as the wrapped optimizer's \<open>state_dict()\<close>
  produces it (a \<open>"state"\<close> entry and a list under \<open>"param_groups"\<close>), its two entries,
  and the cumulative \<open>(start, end)\<close> pairs of a list of group lists.
\<close>

definition shard_ok :: "'a py_dict \<Rightarrow> bool" where
  "shard_ok sh \<longleftrightarrow>
     (case sh ''param_groups'' of Some (PyList gs) \<Rightarrow> sh ''state'' \<noteq> None | _ \<Rightarrow> False)"

definition groups_of :: "'a py_dict \<Rightarrow> 'a py_value list" where
  "groups_of sh = (case sh ''param_groups'' of Some (PyList gs) \<Rightarrow> gs | _ \<Rightarrow> [])"

definition state_of :: "'a py_dict \<Rightarrow> 'a py_value" where
  "state_of sh = the (sh ''state'')"

fun bounds_from :: "int \<Rightarrow> 'a py_value list list \<Rightarrow> 'a py_value list" where
  "bounds_from start [] = []"
| "bounds_from start (gs # gss) =
     PyTuple [PyInt start, PyInt (start + int (length gs))]
       # bounds_from (start + int (length gs)) gss"

text \<open>
  For the step: the parameters a partition assigns to a rank; a memo that is empty or
  assigns the parameters as a fresh partition of the current global groups does (the
  memo is cleared whenever a group is added, while hyperparameters may since have
  changed); freeing the gradients of a set of parameters; and the parameters of all
  ranks but one, the ranks of \<open>xs\<close> being numbered from \<open>k\<close>.
\<close>

definition rank_params :: "'v param_group list list \<Rightarrow> nat \<Rightarrow> param list" where
  "rank_params part r = concat (map params (part ! r))"

definition memo_consistent :: "(param \<Rightarrow> nat) \<Rightarrow> ('v, 'g, 'a) oss \<Rightarrow> bool" where
  "memo_consistent numel s \<longleftrightarrow>
     partition_memo s = [] \<or>
     (case partition_groups numel (world_size s) (param_groups s)
             (replicate (world_size s) [], replicate (world_size s) 0) of
        Inl e \<Rightarrow> False
      | Inr (part, sizes) \<Rightarrow> map (map params) (partition_memo s) = map (map params) part)"

definition clear_on :: "param set \<Rightarrow> (param \<Rightarrow> 'g option) \<Rightarrow> (param \<Rightarrow> 'g option)" where
  "clear_on A gr = (\<lambda>t. if t \<in> A then None else gr t)"

definition other_params :: "nat \<Rightarrow> 'v param_group list list \<Rightarrow> nat \<Rightarrow> param set" where
  "other_params k xs rk = {t. \<exists>i<length xs. k + i \<noteq> rk \<and> t \<in> set (concat (map params (xs ! i)))}"

section \<open>Example states\<close>

text \<open>
  The scenario of the specification: two ranks, one group of three parameters with
  element counts 10, 1 and 1.
\<close>

definition example_numel :: "param \<Rightarrow> nat" where
  "example_numel p = (if p = 0 then 10 else 1)"

definition example_oss :: "(int, int, unit) oss" where
  "example_oss =
     \<lparr>param_groups = [\<lparr>params = [0, 1, 2], hyper = [''lr'' \<mapsto> 1]\<rparr>],
      world_size = 2, rank = 0, partition_memo = [],
      optim_param_groups = [\<lparr>params = [0], hyper = [''lr'' \<mapsto> 1]\<rparr>],
      shared_from = 0, all_states = [], grad = (\<lambda>p. Some 7), warnings = []\<rparr>"

text \<open>
  A wrapped optimizer whose constructor gives every group the default \<open>momentum\<close> 0
  where the group has none, and the state the constructor of \<open>OSS\<close> leaves with it.
\<close>

definition example_optim_init :: "int param_group list \<Rightarrow> py_error + int param_group list" where
  "example_optim_init groups =
     Inr (map (\<lambda>g. g\<lparr>hyper := [''momentum'' \<mapsto> 0] ++ hyper g\<rparr>) groups)"

definition example_constructed :: "(int, int, unit) oss" where
  "example_constructed = projr (oss_init example_optim_init example_numel example_oss)"

text \<open>
  One device with buffers of capacity 4: rank 0 holds the parameters 1, 2 and 0 (sorted
  by element count 1, 1, 10), rank 1 holds none.
\<close>

definition example_per_rank :: "param list list" where
  "example_per_rank = [[1, 2, 0], []]"

text \<open>Two collected shards, with two and one saved groups, and a local state dict.\<close>

definition example_shards :: "unit py_dict list" where
  "example_shards =
     [[''state'' \<mapsto> PyInt 100, ''param_groups'' \<mapsto> PyList [PyInt 10, PyInt 11]],
      [''state'' \<mapsto> PyInt 200, ''param_groups'' \<mapsto> PyList [PyInt 20]]]"

definition example_sd :: "(int, int, unit) oss \<Rightarrow> unit py_dict" where
  "example_sd s = [''state'' \<mapsto> PyInt 100, ''param_groups'' \<mapsto> PyList [PyInt 10, PyInt 11]]"

section \<open>Properties of the partition\<close>

lemma upt2: "[0..<2] = [0, 1]"
  by (simp add: upt_rec)


lemma py_min_Inr:
  assumes "sizes \<noteq> []"
  shows "py_min sizes = Inr (Min (set sizes))"
proof (cases sizes)
  case Nil
  then show ?thesis using assms by simp
next
  case (Cons a list)
  then show ?thesis using Min.set_eq_fold[of a list] by simp
qed

lemma py_index_Inr:
  "v \<in> set xs \<Longrightarrow>
     \<exists>i. py_index xs v = Inr i \<and> i < length xs \<and> xs ! i = v \<and> (\<forall>j<i. xs ! j \<noteq> v)"
proof (induction xs)
  case Nil
  then show ?case by simp
next
  case (Cons x xs)
  show ?case
  proof (cases "x = v")
    case True
    then show ?thesis by simp
  next
    case False
    with Cons.prems have "v \<in> set xs" by simp
    from Cons.IH[OF this] obtain i where
      i: "py_index xs v = Inr i" "i < length xs" "xs ! i = v" "\<forall>j<i. xs ! j \<noteq> v"
      by blast
    have "\<forall>j<Suc i. (x # xs) ! j \<noteq> v"
      using False i(4) by (auto simp: less_Suc_eq_0_disj)
    with False i show ?thesis by simp
  qed
qed

lemma argmin_rank:
  assumes "sizes \<noteq> []"
  shows "\<exists>r. py_min sizes = Inr (Min (set sizes)) \<and> py_index sizes (Min (set sizes)) = Inr r
           \<and> r < length sizes \<and> sizes ! r = Min (set sizes) \<and> (\<forall>j<r. sizes ! j \<noteq> Min (set sizes))"
proof -
  have "Min (set sizes) \<in> set sizes" using assms by (simp add: Min_in)
  from py_index_Inr[OF this] show ?thesis using py_min_Inr[OF assms] by blast
qed

lemma mset_concat_append_nth:
  "k < length pl \<Longrightarrow> mset (concat (pl[k := pl ! k @ [p]])) = add_mset p (mset (concat pl))"
proof (induction pl arbitrary: k)
  case Nil
  then show ?case by simp
next
  case (Cons a pl)
  then show ?case by (cases k) simp_all
qed

lemma assign_params_total:
  assumes "length pl = length sz" "sz \<noteq> []"
  shows "\<exists>pl' sz'. assign_params numel ps (pl, sz) = Inr (pl', sz')
           \<and> length pl' = length pl \<and> length sz' = length sz
           \<and> mset (concat pl') = mset (concat pl) + mset ps"
  using assms
proof (induction ps arbitrary: pl sz)
  case Nil
  then show ?case by simp
next
  case (Cons p ps)
  from argmin_rank[OF Cons.prems(2)] obtain r where
    r: "py_min sz = Inr (Min (set sz))" "py_index sz (Min (set sz)) = Inr r" "r < length sz"
    by blast
  let ?pl = "pl[r := pl ! r @ [p]]" and ?sz = "sz[r := sz ! r + numel p]"
  have "length ?pl = length ?sz" "?sz \<noteq> []" using Cons.prems by auto
  from Cons.IH[OF this] obtain pl' sz' where
    res: "assign_params numel ps (?pl, ?sz) = Inr (pl', sz')"
      "length pl' = length ?pl" "length sz' = length ?sz"
      "mset (concat pl') = mset (concat ?pl) + mset ps"
    by blast
  have "mset (concat ?pl) = add_mset p (mset (concat pl))"
    using r(3) Cons.prems(1) by (simp add: mset_concat_append_nth)
  with res r show ?case by simp
qed


lemma fold_records_upto:
  fixes g :: "'v param_group" and pl :: "param list list"
  defines "f \<equiv> (\<lambda>rnk acc. acc[rnk := acc ! rnk @ [g\<lparr>params := pl ! rnk\<rparr>]])"
  assumes "n \<le> length part"
  shows "length (fold f [0..<n] part) = length part \<and>
         (\<forall>r<length part. fold f [0..<n] part ! r =
            (if r < n then part ! r @ [g\<lparr>params := pl ! r\<rparr>] else part ! r))"
  using assms(2)
proof (induction n)
  case 0
  then show ?case by simp
next
  case (Suc n)
  then have IH: "length (fold f [0..<n] part) = length part"
    "\<forall>r<length part. fold f [0..<n] part ! r =
            (if r < n then part ! r @ [g\<lparr>params := pl ! r\<rparr>] else part ! r)"
    by simp_all
  have step: "fold f [0..<Suc n] part = f n (fold f [0..<n] part)" by simp
  have n: "n < length part" using Suc.prems by simp
  show ?case unfolding step using IH n
    by (auto simp: f_def nth_list_update less_Suc_eq)
qed

lemma append_group_records_nth:
  assumes "length pl = length part"
  shows "length (append_group_records g pl part) = length part"
    and "r < length part \<Longrightarrow>
           append_group_records g pl part ! r = part ! r @ [g\<lparr>params := pl ! r\<rparr>]"
  using fold_records_upto[where n="length pl" and part=part and g=g and pl=pl] assms
  by (simp_all add: append_group_records_def)

lemma partition_groups_total:
  assumes "length part = ws" "length sizes = ws" "0 < ws"
    and "\<forall>r<ws. length (part ! r) = k"
  shows "\<exists>part' sizes'. partition_groups numel ws gs (part, sizes) = Inr (part', sizes')
           \<and> length part' = ws \<and> length sizes' = ws
           \<and> (\<forall>r<ws. length (part' ! r) = k + length gs)
           \<and> (\<forall>r<ws. take k (part' ! r) = part ! r)
           \<and> (\<forall>r<ws. \<forall>i<length gs. hyper (part' ! r ! (k + i)) = hyper (gs ! i))
           \<and> (\<forall>i<length gs. mset (concat (map (\<lambda>r. params (part' ! r ! (k + i))) [0..<ws]))
                  = mset (params (gs ! i)))"
  using assms
proof (induction gs arbitrary: part sizes k)
  case Nil
  then show ?case by simp
next
  case (Cons g gs)
  have "length (replicate ws ([]::param list)) = length sizes" "sizes \<noteq> []"
    using Cons.prems by auto
  from assign_params_total[OF this, of numel "params g"] obtain pl sz where
    a0: "assign_params numel (params g) (replicate ws [], sizes) = Inr (pl, sz)"
      "length pl = length (replicate ws ([]::param list))" "length sz = length sizes"
      "mset (concat pl) = mset (concat (replicate ws [])) + mset (params g)"
    by blast
  have a: "assign_params numel (params g) (replicate ws [], sizes) = Inr (pl, sz)"
      "length pl = ws" "length sz = ws"
      "mset (concat pl) = mset (params g)"
    using a0 Cons.prems(2) by simp_all
  let ?part1 = "append_group_records g pl part"
  have lp: "length pl = length part" using a Cons.prems by simp
  have p1: "length ?part1 = ws"
    "\<forall>r<ws. ?part1 ! r = part ! r @ [g\<lparr>params := pl ! r\<rparr>]"
    using append_group_records_nth[OF lp] Cons.prems(1) by simp_all
  have p1len: "\<forall>r<ws. length (?part1 ! r) = Suc k"
    using p1(2) Cons.prems(4) by simp
  from Cons.IH[OF p1(1) a(3) Cons.prems(3) p1len] obtain part' sizes' where
    ih: "partition_groups numel ws gs (?part1, sz) = Inr (part', sizes')"
      "length part' = ws" "length sizes' = ws"
      "\<forall>r<ws. length (part' ! r) = Suc k + length gs"
      "\<forall>r<ws. take (Suc k) (part' ! r) = ?part1 ! r"
      "\<forall>r<ws. \<forall>i<length gs. hyper (part' ! r ! (Suc k + i)) = hyper (gs ! i)"
      "\<forall>i<length gs. mset (concat (map (\<lambda>r. params (part' ! r ! (Suc k + i))) [0..<ws]))
                  = mset (params (gs ! i))"
    by blast
  have tk: "\<forall>r<ws. take (Suc k) (part' ! r) = part ! r @ [g\<lparr>params := pl ! r\<rparr>]"
    using ih(5) p1(2) by simp
  have takek: "\<forall>r<ws. take k (part' ! r) = part ! r"
  proof (intro allI impI)
    fix r assume r: "r < ws"
    have "take k (part' ! r) = take k (take (Suc k) (part' ! r))" by simp
    also have "\<dots> = take k (part ! r @ [g\<lparr>params := pl ! r\<rparr>])" using tk r by simp
    also have "\<dots> = part ! r" using Cons.prems(4) r by simp
    finally show "take k (part' ! r) = part ! r" .
  qed
  have atk: "\<forall>r<ws. part' ! r ! k = g\<lparr>params := pl ! r\<rparr>"
  proof (intro allI impI)
    fix r assume r: "r < ws"
    have "part' ! r ! k = take (Suc k) (part' ! r) ! k" by simp
    also have "\<dots> = (part ! r @ [g\<lparr>params := pl ! r\<rparr>]) ! k" using tk r by simp
    also have "\<dots> = g\<lparr>params := pl ! r\<rparr>" using Cons.prems(4) r by (simp add: nth_append)
    finally show "part' ! r ! k = g\<lparr>params := pl ! r\<rparr>" .
  qed
  have hyp: "\<forall>r<ws. \<forall>i<length (g # gs). hyper (part' ! r ! (k + i)) = hyper ((g # gs) ! i)"
  proof (intro allI impI)
    fix r i assume r: "r < ws" and i: "i < length (g # gs)"
    show "hyper (part' ! r ! (k + i)) = hyper ((g # gs) ! i)"
    proof (cases i)
      case 0
      then show ?thesis using atk r by simp
    next
      case (Suc j)
      then show ?thesis using ih(6) r i by simp
    qed
  qed
  have pars: "\<forall>i<length (g # gs).
      mset (concat (map (\<lambda>r. params (part' ! r ! (k + i))) [0..<ws])) = mset (params ((g # gs) ! i))"
  proof (intro allI impI)
    fix i assume i: "i < length (g # gs)"
    show "mset (concat (map (\<lambda>r. params (part' ! r ! (k + i))) [0..<ws])) = mset (params ((g # gs) ! i))"
    proof (cases i)
      case 0
      have "map (\<lambda>r. params (part' ! r ! k)) [0..<ws] = map (\<lambda>r. pl ! r) [0..<ws]"
        using atk by simp
      also have "\<dots> = pl" using a(2) map_nth[of pl] by simp
      finally show ?thesis using 0 a(4) by simp
    next
      case (Suc j)
      then show ?thesis using ih(7) i by simp
    qed
  qed
  show ?case using a(1) ih(1,2,3,4) takek hyp pars by simp
qed


lemma partition_parameters_fresh:
  assumes "partition_memo s = []" "0 < world_size s"
  shows "\<exists>part sizes. partition_parameters numel s = Inr (part, s\<lparr>partition_memo := part\<rparr>)
           \<and> partition_groups numel (world_size s) (param_groups s)
                 (replicate (world_size s) [], replicate (world_size s) 0) = Inr (part, sizes)
           \<and> length part = world_size s
           \<and> (\<forall>r<world_size s. length (part ! r) = length (param_groups s))
           \<and> (\<forall>r<world_size s. \<forall>i<length (param_groups s).
                  hyper (part ! r ! i) = hyper (param_groups s ! i))
           \<and> (\<forall>i<length (param_groups s).
                  mset (concat (map (\<lambda>r. params (part ! r ! i)) [0..<world_size s]))
                    = mset (params (param_groups s ! i)))"
proof -
  let ?ws = "world_size s"
  have "length (replicate ?ws ([]::'a param_group list)) = ?ws"
    "length (replicate ?ws (0::nat)) = ?ws"
    "\<forall>r<?ws. length (replicate ?ws ([]::'a param_group list) ! r) = 0"
    by simp_all
  from partition_groups_total[OF this(1,2) assms(2) this(3), of numel "param_groups s"]
  obtain part sizes where
    "partition_groups numel ?ws (param_groups s) (replicate ?ws [], replicate ?ws 0) = Inr (part, sizes)"
    "length part = ?ws"
    "\<forall>r<?ws. length (part ! r) = 0 + length (param_groups s)"
    "\<forall>r<?ws. \<forall>i<length (param_groups s). hyper (part ! r ! (0 + i)) = hyper (param_groups s ! i)"
    "\<forall>i<length (param_groups s).
        mset (concat (map (\<lambda>r. params (part ! r ! (0 + i))) [0..<?ws])) = mset (params (param_groups s ! i))"
    by blast
  then show ?thesis using assms(1) by (simp add: partition_parameters_def)
qed

lemma mset_concat_upt: "mset (concat (map f [0..<n])) = (\<Sum>r<n. mset (f r))"
  by (induction n) simp_all

lemma example_partition:
  "partition_parameters example_numel example_oss =
     Inr ([[\<lparr>params = [0], hyper = [''lr'' \<mapsto> 1]\<rparr>], [\<lparr>params = [1, 2], hyper = [''lr'' \<mapsto> 1]\<rparr>]],
          example_oss\<lparr>partition_memo :=
            [[\<lparr>params = [0], hyper = [''lr'' \<mapsto> 1]\<rparr>], [\<lparr>params = [1, 2], hyper = [''lr'' \<mapsto> 1]\<rparr>]]\<rparr>)"
  by (simp add: partition_parameters_def example_oss_def example_numel_def
      append_group_records_def upt2 numeral_2_eq_2)


text \<open>
  C1. When the partition is computed (the memo is empty) for a world of at least one
  rank, \<open>partition_parameters\<close> returns one list of records per rank, every list
  holding one record per global group, and for every global group the multiset union
  over the ranks of the records' \<open>params\<close> is the multiset of that group's \<open>params\<close>:
  no parameter is duplicated and none is omitted.
\<close>

theorem partition_parameters_complete_disjoint:
  assumes "partition_memo s = []" and "1 \<le> world_size s"
  shows "\<exists>part s'. partition_parameters numel s = Inr (part, s')
           \<and> length part = world_size s
           \<and> (\<forall>r<world_size s. length (part ! r) = length (param_groups s))
           \<and> (\<forall>g<length (param_groups s).
                  (\<Sum>r<world_size s. mset (params (part ! r ! g)))
                    = mset (params (param_groups s ! g)))"
proof -
  have "0 < world_size s" using assms(2) by simp
  from partition_parameters_fresh[OF assms(1) this, of numel]
  show ?thesis by (auto simp: mset_concat_upt)
qed

theorem partition_parameters_complete_disjoint_witness:
  "partition_memo example_oss = [] \<and> 1 \<le> world_size example_oss
   \<and> (\<exists>part s'. partition_parameters example_numel example_oss = Inr (part, s')
         \<and> map (map params) part = [[[0]], [[1, 2]]]
         \<and> (\<Sum>r<2. mset (params (part ! r ! 0))) = mset [0, 1, 2])"
  using partition_parameters_complete_disjoint[of example_oss example_numel]
  by (simp add: example_partition) (simp add: example_oss_def numeral_2_eq_2)



section \<open>The greedy assignment\<close>







section \<open>Balance of the partition\<close>

lemma assign_params_sizes:
  assumes "length pl = length sz" "sz \<noteq> []"
    and "assign_params numel ps (pl, sz) = Inr (pl', sz')"
  shows "\<forall>r<length sz. sz' ! r + sum_list (map numel (pl ! r)) = sz ! r + sum_list (map numel (pl' ! r))"
  using assms
proof (induction ps arbitrary: pl sz)
  case Nil
  then show ?case by simp
next
  case (Cons p ps)
  from argmin_rank[OF Cons.prems(2)] obtain k where
    k: "py_min sz = Inr (Min (set sz))" "py_index sz (Min (set sz)) = Inr k" "k < length sz"
    by blast
  let ?pl = "pl[k := pl ! k @ [p]]" and ?sz = "sz[k := sz ! k + numel p]"
  have res: "assign_params numel ps (?pl, ?sz) = Inr (pl', sz')"
    using Cons.prems(3) k by simp
  have "length ?pl = length ?sz" "?sz \<noteq> []" using Cons.prems by auto
  from Cons.IH[OF this res]
  have ih: "\<forall>r<length sz. sz' ! r + sum_list (map numel (?pl ! r)) = ?sz ! r + sum_list (map numel (pl' ! r))"
    by simp
  show ?case
  proof (intro allI impI)
    fix r assume r: "r < length sz"
    from ih r have e: "sz' ! r + sum_list (map numel (?pl ! r)) = ?sz ! r + sum_list (map numel (pl' ! r))"
      by blast
    show "sz' ! r + sum_list (map numel (pl ! r)) = sz ! r + sum_list (map numel (pl' ! r))"
      using e r k(3) Cons.prems(1) by (cases "r = k") (simp_all add: nth_list_update)
  qed
qed

lemma balanced_step:
  assumes "balanced m sz" "k < length sz" "sz ! k = Min (set sz)" "n \<le> m"
  shows "balanced m (sz[k := sz ! k + n])"
  unfolding balanced_def
proof (intro allI impI)
  fix r r' assume r: "r < length (sz[k := sz ! k + n])" and r': "r' < length (sz[k := sz ! k + n])"
  have min: "sz ! k \<le> sz ! r'" using assms(3) r' by simp
  have b: "sz ! r \<le> sz ! r' + m" using assms(1) r r' by (simp add: balanced_def)
  show "sz[k := sz ! k + n] ! r \<le> sz[k := sz ! k + n] ! r' + m"
    using min b assms(2,4) r r' by (auto simp: nth_list_update)
qed

lemma assign_params_balanced:
  assumes "length pl = length sz" "sz \<noteq> []"
    and "assign_params numel ps (pl, sz) = Inr (pl', sz')"
    and "balanced m sz" "\<forall>p\<in>set ps. numel p \<le> m"
  shows "balanced m sz'"
  using assms
proof (induction ps arbitrary: pl sz)
  case Nil
  then show ?case by simp
next
  case (Cons p ps)
  from argmin_rank[OF Cons.prems(2)] obtain k where
    k: "py_min sz = Inr (Min (set sz))" "py_index sz (Min (set sz)) = Inr k" "k < length sz"
       "sz ! k = Min (set sz)"
    by blast
  let ?pl = "pl[k := pl ! k @ [p]]" and ?sz = "sz[k := sz ! k + numel p]"
  have res: "assign_params numel ps (?pl, ?sz) = Inr (pl', sz')"
    using Cons.prems(3) k by simp
  have l: "length ?pl = length ?sz" "?sz \<noteq> []" using Cons.prems by auto
  have b: "balanced m ?sz"
    using balanced_step[OF Cons.prems(4) k(3,4)] Cons.prems(5) by simp
  show ?case using Cons.IH[OF l res b] Cons.prems(5) by simp
qed

lemma rank_total_snoc:
  "rank_total numel (recs @ [g]) = rank_total numel recs + sum_list (map numel (params g))"
  by (simp add: rank_total_def)

lemma partition_groups_sizes:
  assumes "length part = ws" "length sizes = ws" "0 < ws"
    and "partition_groups numel ws gs (part, sizes) = Inr (part', sizes')"
  shows "\<forall>r<ws. sizes' ! r + rank_total numel (part ! r) = sizes ! r + rank_total numel (part' ! r)"
  using assms
proof (induction gs arbitrary: part sizes)
  case Nil
  then show ?case by simp
next
  case (Cons g gs)
  have l0: "length (replicate ws ([]::param list)) = length sizes" "sizes \<noteq> []"
    using Cons.prems by auto
  from assign_params_total[OF l0, of numel "params g"] obtain pl sz where
    a: "assign_params numel (params g) (replicate ws [], sizes) = Inr (pl, sz)"
      "length pl = length (replicate ws ([]::param list))" "length sz = length sizes"
    by blast
  let ?part1 = "append_group_records g pl part"
  have lp: "length pl = length part" using a Cons.prems by simp
  have p1: "length ?part1 = ws"
    "\<forall>r<ws. ?part1 ! r = part ! r @ [g\<lparr>params := pl ! r\<rparr>]"
    using append_group_records_nth[OF lp] Cons.prems(1) by simp_all
  have res: "partition_groups numel ws gs (?part1, sz) = Inr (part', sizes')"
    using Cons.prems(4) a(1) by simp
  have lsz: "length sz = ws" using a(3) Cons.prems(2) by simp
  from Cons.IH[OF p1(1) lsz Cons.prems(3) res]
  have ih: "\<forall>r<ws. sizes' ! r + rank_total numel (?part1 ! r) = sz ! r + rank_total numel (part' ! r)" .
  from assign_params_sizes[OF l0 a(1)]
  have sz: "\<forall>r<ws. sz ! r = sizes ! r + sum_list (map numel (pl ! r))"
    using Cons.prems(2) by simp
  show ?case
  proof (intro allI impI)
    fix r assume r: "r < ws"
    have "sizes' ! r + (rank_total numel (part ! r) + sum_list (map numel (pl ! r)))
            = sizes ! r + sum_list (map numel (pl ! r)) + rank_total numel (part' ! r)"
      using ih sz p1(2) r by (simp add: rank_total_snoc)
    then show "sizes' ! r + rank_total numel (part ! r) = sizes ! r + rank_total numel (part' ! r)"
      by simp
  qed
qed

lemma partition_groups_balanced:
  assumes "length part = ws" "length sizes = ws" "0 < ws"
    and "partition_groups numel ws gs (part, sizes) = Inr (part', sizes')"
    and "balanced m sizes" "\<forall>g\<in>set gs. \<forall>p\<in>set (params g). numel p \<le> m"
  shows "balanced m sizes'"
  using assms
proof (induction gs arbitrary: part sizes)
  case Nil
  then show ?case by simp
next
  case (Cons g gs)
  have l0: "length (replicate ws ([]::param list)) = length sizes" "sizes \<noteq> []"
    using Cons.prems by auto
  from assign_params_total[OF l0, of numel "params g"] obtain pl sz where
    a: "assign_params numel (params g) (replicate ws [], sizes) = Inr (pl, sz)"
      "length pl = length (replicate ws ([]::param list))" "length sz = length sizes"
    by blast
  let ?part1 = "append_group_records g pl part"
  have lp: "length pl = length part" using a Cons.prems by simp
  have p1: "length ?part1 = ws"
    using append_group_records_nth(1)[OF lp] Cons.prems(1) by simp
  have res: "partition_groups numel ws gs (?part1, sz) = Inr (part', sizes')"
    using Cons.prems(4) a(1) by simp
  have lsz: "length sz = ws" using a(3) Cons.prems(2) by simp
  have "\<forall>p\<in>set (params g). numel p \<le> m" using Cons.prems(6) by simp
  from assign_params_balanced[OF l0 a(1) Cons.prems(5) this]
  have b: "balanced m sz" .
  show ?case using Cons.IH[OF p1 lsz Cons.prems(3) res b] Cons.prems(6) by simp
qed

lemma le_largest_numel:
  assumes "g \<in> set gs" "p \<in> set (params g)"
  shows "numel p \<le> largest_numel numel gs"
proof -
  let ?xs = "map numel (concat (map params gs))"
  have "numel p \<in> set (0 # ?xs)" using assms by auto
  then have "numel p \<le> Max (set (0 # ?xs))" by (intro Max_ge) simp_all
  then show ?thesis unfolding largest_numel_def using Max.set_eq_fold[of 0 ?xs] by simp
qed

text \<open>
  C5. When the partition is computed for a world of at least one rank, the largest
  per-rank total element count exceeds the smallest by at most the element count of the
  largest parameter.
\<close>

theorem partition_parameters_balance:
  assumes "partition_memo s = []" and "1 \<le> world_size s"
  shows "\<exists>part s'. partition_parameters numel s = Inr (part, s')
           \<and> Max (set (map (rank_total numel) part)) - Min (set (map (rank_total numel) part))
                 \<le> largest_numel numel (param_groups s)"
proof -
  let ?ws = "world_size s" and ?m = "largest_numel numel (param_groups s)"
  have ws: "0 < ?ws" using assms(2) by simp
  from partition_parameters_fresh[OF assms(1) ws, of numel] obtain part sizes where
    p: "partition_parameters numel s = Inr (part, s\<lparr>partition_memo := part\<rparr>)"
       "partition_groups numel ?ws (param_groups s) (replicate ?ws [], replicate ?ws 0) = Inr (part, sizes)"
       "length part = ?ws"
    by blast
  have l: "length (replicate ?ws ([]::'a param_group list)) = ?ws" "length (replicate ?ws (0::nat)) = ?ws"
    by simp_all
  have tot: "\<forall>r<?ws. sizes ! r = rank_total numel (part ! r)"
    using partition_groups_sizes[OF l ws p(2)] by (simp add: rank_total_def)
  have "balanced ?m (replicate ?ws 0)" by (simp add: balanced_def)
  moreover have "\<forall>g\<in>set (param_groups s). \<forall>p\<in>set (params g). numel p \<le> ?m"
    using le_largest_numel by blast
  ultimately have bal: "balanced ?m sizes"
    using partition_groups_balanced[OF l ws p(2)] by blast
  have lsz: "length sizes = ?ws"
    using partition_groups_total[OF l ws, of 0 numel "param_groups s"] p(2) by auto
  let ?T = "map (rank_total numel) part"
  have ne: "set ?T \<noteq> {}" using p(3) ws by auto
  have "Max (set ?T) \<in> set ?T" using ne by (intro Max_in) simp_all
  then obtain r where r: "r < ?ws" "Max (set ?T) = rank_total numel (part ! r)"
    using p(3) by (auto simp: in_set_conv_nth)
  have "Min (set ?T) \<in> set ?T" using ne by (intro Min_in) simp_all
  then obtain r' where r': "r' < ?ws" "Min (set ?T) = rank_total numel (part ! r')"
    using p(3) by (auto simp: in_set_conv_nth)
  have "sizes ! r \<le> sizes ! r' + ?m"
    using bal r(1) r'(1) lsz by (simp add: balanced_def)
  then have "Max (set ?T) \<le> Min (set ?T) + ?m" using tot r r' by simp
  then have "Max (set ?T) - Min (set ?T) \<le> ?m" by simp
  with p(1) show ?thesis by blast
qed

theorem partition_parameters_balance_witness:
  "partition_memo example_oss = [] \<and> 1 \<le> world_size example_oss
   \<and> (\<exists>part s'. partition_parameters example_numel example_oss = Inr (part, s')
         \<and> map (rank_total example_numel) part = [10, 2]
         \<and> largest_numel example_numel (param_groups example_oss) = 10
         \<and> Max (set (map (rank_total example_numel) part)) - Min (set (map (rank_total example_numel) part))
               \<le> largest_numel example_numel (param_groups example_oss))"
  using partition_parameters_balance[of example_oss example_numel]
  by (simp add: example_partition)
     (simp add: example_oss_def example_numel_def rank_total_def largest_numel_def)

section \<open>Bucketing and broadcast order\<close>














lemma pack_param_issue_inv:
  assumes "issue_inv st"
  shows "issue_inv (pack_param numel bs src gsr p st)"
  using assms by (auto simp: issue_inv_def pack_param_def send_bucket_def Let_def)

lemma pack_params_issue_inv:
  assumes "issue_inv st"
  shows "issue_inv (pack_params numel bs src gsr ps st)"
  using assms unfolding pack_params_def
  by (induction ps arbitrary: st) (simp_all add: pack_param_issue_inv)

lemma issue_rank_issue_inv:
  assumes "issue_inv st"
  shows "issue_inv (issue_rank numel bs grp rp st)"
proof -
  obtain r ps where rp: "rp = (r, ps)" by (cases rp)
  let ?st0 = "st\<lparr>offset := 0, bucket_sent := False, bucket_params := []\<rparr>"
  have "issue_inv ?st0" using assms by (simp add: issue_inv_def)
  from pack_params_issue_inv[OF this, of numel bs r "get_global_rank grp r" ps]
  show ?thesis unfolding rp
    by (auto simp: issue_rank_def Let_def send_bucket_def issue_inv_def)
qed

lemma fold_issue_inv:
  assumes "issue_inv st"
  shows "issue_inv (fold (issue_rank numel bs grp) xs st)"
  using assms by (induction xs arbitrary: st) (simp_all add: issue_rank_issue_inv)

lemma issue_all_issue_inv: "issue_inv (issue_all numel bs grp buffers prp)"
  unfolding issue_all_def by (rule fold_issue_inv) (simp add: issue_inv_def)




lemma example_broadcast:
  "broadcast_params example_numel None 1 [4, 4] example_per_rank =
     Inr \<lparr>bucket_requests = [((Buffer 0, 0), 0, [(1, 0, 1), (2, 1, 2)]), ((Buffer 1, 1), 1, [])],
          direct_requests = [(ParamData 0, 0)],
          offset = 0, bucket_sent = False, bucket_params = [],
          trace = [CopyIn 0 1 0 1, CopyIn 0 2 1 2, Broadcast (Buffer 0) 0,
                   Broadcast (ParamData 0) 0, Broadcast (Buffer 1) 1,
                   Wait (Buffer 0, 0), CopyOut 1 0 0 1, CopyOut 2 0 1 2,
                   Wait (Buffer 1, 1), Wait (ParamData 0, 0)]\<rparr>"
  by (simp add: broadcast_params_def issue_all_def issue_rank_def pack_params_def pack_param_def
      send_bucket_def get_global_rank_def unpack_bucket_def Let_def example_numel_def
      example_per_rank_def)



text \<open>
  C4. For one rank whose only parameter (5 elements) already overflows the empty buffer
  (capacity 4), the pass broadcasts the parameter directly and still issues the bucket
  broadcast of that rank, with no entry packed (\<open>offset = 0\<close>): the trailing
  \<open>if not bucket_sent\<close> does not test \<open>offset > 0\<close> as the branch inside the loop does.
\<close>

theorem broadcast_params_empty_bucket_sent:
  "broadcast_params (\<lambda>p. 5) None 0 [4] [[0]] =
     Inr \<lparr>bucket_requests = [((Buffer 0, 0), 0, [])],
          direct_requests = [(ParamData 0, 0)],
          offset = 0, bucket_sent = False, bucket_params = [],
          trace = [Broadcast (ParamData 0) 0, Broadcast (Buffer 0) 0,
                   Wait (Buffer 0, 0), Wait (ParamData 0, 0)]\<rparr>"
  by (simp add: broadcast_params_def issue_all_def issue_rank_def pack_params_def pack_param_def
      send_bucket_def get_global_rank_def unpack_bucket_def Let_def)

text \<open>
  C6. The trace of a pass is an issuing part, in which nothing is waited on or copied
  out and whose broadcasts are exactly the bucket and direct requests of the pass;
  then, for every bucket request in turn, the wait on its handle followed, when its
  source rank is not this rank, by one copy out of that rank's buffer per recorded
  entry with the entry's offsets; then the waits on the direct requests. No copy out of
  this rank's own buffer occurs anywhere in the trace, and every copy out that occurs
  is for a recorded entry of the bucket request of its source rank.
\<close>

theorem broadcast_params_issue_before_wait:
  assumes "buffers \<noteq> []"
  shows "\<exists>st issue. broadcast_params numel grp self_rank buffers per_rank_params = Inr st
     \<and> trace st =
         issue
         @ concat (map (\<lambda>(h, r, bps).
               Wait h # (if r \<noteq> self_rank then map (\<lambda>(p, off, endp). CopyOut p r off endp) bps else []))
             (bucket_requests st))
         @ map Wait (direct_requests st)
     \<and> (\<forall>e\<in>set issue. \<not> is_completion e)
     \<and> mset (concat (map issued issue)) = mset (map fst (bucket_requests st)) + mset (direct_requests st)
     \<and> (\<forall>p off endp. CopyOut p self_rank off endp \<notin> set (trace st))
     \<and> (\<forall>p r off endp. CopyOut p r off endp \<in> set (trace st) \<longrightarrow>
            r \<noteq> self_rank
            \<and> (\<exists>h bps. (h, r, bps) \<in> set (bucket_requests st) \<and> (p, off, endp) \<in> set bps))"
proof -
  obtain b bs where buf: "buffers = b # bs" using assms by (cases buffers) auto
  let ?base = "issue_all numel b grp buffers per_rank_params"
  let ?st = "?base\<lparr>trace := trace ?base @ concat (map (unpack_bucket self_rank) (bucket_requests ?base))
                     @ map Wait (direct_requests ?base)\<rparr>"
  have res: "broadcast_params numel grp self_rank buffers per_rank_params = Inr ?st"
    by (simp add: broadcast_params_def buf Let_def)
  have inv: "issue_inv ?base" by (rule issue_all_issue_inv)
  have cp: "\<forall>p r off endp. CopyOut p r off endp \<in> set (trace ?st) \<longrightarrow>
            r \<noteq> self_rank
            \<and> (\<exists>h bps. (h, r, bps) \<in> set (bucket_requests ?st) \<and> (p, off, endp) \<in> set bps)"
  proof (intro allI impI)
    fix p r off endp assume "CopyOut p r off endp \<in> set (trace ?st)"
    then have "CopyOut p r off endp \<in> set (concat (map (unpack_bucket self_rank) (bucket_requests ?base)))"
      using inv by (auto simp: issue_inv_def)
    then obtain req where req: "req \<in> set (bucket_requests ?base)"
      "CopyOut p r off endp \<in> set (unpack_bucket self_rank req)"
      by auto
    obtain h r' bps where r3: "req = (h, r', bps)" by (cases req)
    from req(2) have f: "r' \<noteq> self_rank" "r = r'" "(p, off, endp) \<in> set bps"
      unfolding r3 by (auto simp: unpack_bucket_def split: if_splits)
    have "(h, r, bps) \<in> set (bucket_requests ?st)" using req(1) r3 f(2) by simp
    with f show "r \<noteq> self_rank
            \<and> (\<exists>h bps. (h, r, bps) \<in> set (bucket_requests ?st) \<and> (p, off, endp) \<in> set bps)"
      by blast
  qed
  have unp: "unpack_bucket self_rank = (\<lambda>(h, r, bps).
               Wait h # (if r \<noteq> self_rank then map (\<lambda>(p, off, endp). CopyOut p r off endp) bps else []))"
    by (simp add: unpack_bucket_def)
  have no_issue: "\<forall>p off endp. CopyOut p self_rank off endp \<notin> set (trace ?base)"
    using inv by (auto simp: issue_inv_def)
  have no_mid: "\<forall>p off endp. CopyOut p self_rank off endp \<notin>
                  set (concat (map (unpack_bucket self_rank) (bucket_requests ?base)))"
    by (auto simp: unpack_bucket_def split: if_splits)
  have no_wait: "\<forall>p off endp. CopyOut p self_rank off endp \<notin> set (map Wait (direct_requests ?base))"
    by auto
  have t: "trace ?st = trace ?base
             @ concat (map (\<lambda>(h, r, bps).
                 Wait h # (if r \<noteq> self_rank then map (\<lambda>(p, off, endp). CopyOut p r off endp) bps else []))
               (bucket_requests ?st))
             @ map Wait (direct_requests ?st)"
    by (simp add: unp)
  have nc: "\<forall>e\<in>set (trace ?base). \<not> is_completion e" using inv by (simp add: issue_inv_def)
  have ms: "mset (concat (map issued (trace ?base))) =
                   mset (map fst (bucket_requests ?st)) + mset (direct_requests ?st)"
    using inv by (simp add: issue_inv_def)
  have no: "\<forall>p off endp. CopyOut p self_rank off endp \<notin> set (trace ?st)"
    using no_issue no_mid no_wait by simp
  show ?thesis
    by (intro exI[of _ ?st] exI[of _ "trace ?base"] conjI) (rule res t nc ms no cp)+
qed

theorem broadcast_params_issue_before_wait_witness:
  "[4, 4 :: nat] \<noteq> []
   \<and> (\<exists>st. broadcast_params example_numel None 1 [4, 4] example_per_rank = Inr st
         \<and> trace st =
             [CopyIn 0 1 0 1, CopyIn 0 2 1 2, Broadcast (Buffer 0) 0,
              Broadcast (ParamData 0) 0, Broadcast (Buffer 1) 1]
             @ [Wait (Buffer 0, 0), CopyOut 1 0 0 1, CopyOut 2 0 1 2, Wait (Buffer 1, 1)]
             @ [Wait (ParamData 0, 0)])"
proof -
  have h: "[4, 4 :: nat] \<noteq> []" by simp
  from broadcast_params_issue_before_wait[OF h, of example_numel None 1 example_per_rank]
  obtain st where st: "broadcast_params example_numel None 1 [4, 4] example_per_rank = Inr st"
    by blast
  have "trace st =
             [CopyIn 0 1 0 1, CopyIn 0 2 1 2, Broadcast (Buffer 0) 0,
              Broadcast (ParamData 0) 0, Broadcast (Buffer 1) 1]
             @ [Wait (Buffer 0, 0), CopyOut 1 0 0 1, CopyOut 2 0 1 2, Wait (Buffer 1, 1)]
             @ [Wait (ParamData 0, 0)]"
    using st unfolding example_broadcast by auto
  with h st show ?thesis by blast
qed

section \<open>Checkpoint views\<close>

lemma shard_ok_fields:
  assumes "shard_ok sh"
  shows "sh ''param_groups'' = Some (PyList (groups_of sh))"
    and "sh ''state'' = Some (state_of sh)"
  using assms
  by (auto simp: shard_ok_def groups_of_def state_of_def split: option.splits py_value.splits)

lemma flatten_shards_ok:
  assumes "list_all shard_ok ss"
  shows "flatten_shards ss (start, ptn, pgs) =
           Inr (start + int (length (concat (map groups_of ss))),
                ptn @ bounds_from start (map groups_of ss),
                pgs @ concat (map groups_of ss))"
  using assms
proof (induction ss arbitrary: start ptn pgs)
  case Nil
  then show ?case by simp
next
  case (Cons sh ss)
  then have ok: "shard_ok sh" and rest: "list_all shard_ok ss" by simp_all
  show ?case
    using Cons.IH[OF rest] shard_ok_fields(1)[OF ok]
    by (simp add: Let_def algebra_simps)
qed

lemma shard_states_ok:
  assumes "list_all shard_ok ss"
  shows "shard_states ss = Inr (map state_of ss)"
  using assms
proof (induction ss)
  case Nil
  then show ?case by simp
next
  case (Cons sh ss)
  then have ok: "shard_ok sh" and rest: "list_all shard_ok ss" by simp_all
  show ?case using Cons.IH[OF rest] shard_ok_fields(2)[OF ok] by simp
qed

lemma state_dict_global:
  assumes "all_states s \<noteq> []" "list_all shard_ok (all_states s)"
  shows "state_dict sd s =
           (Inr [''state'' \<mapsto> PyList (map state_of (all_states s)),
                 ''param_groups'' \<mapsto> PyList (concat (map groups_of (all_states s))),
                 ''partition'' \<mapsto> PyList (bounds_from 0 (map groups_of (all_states s))),
                 ''local_state_dict'' \<mapsto> PyBool False], s)"
  using assms flatten_shards_ok[OF assms(2), of 0 "[]" "[]"] shard_states_ok[OF assms(2)]
  by (simp add: state_dict_def)

lemma bounds_from_length: "length (bounds_from start gss) = length gss"
  by (induction gss arbitrary: start) simp_all

lemma bounds_from_nth:
  assumes "r < length gss"
  shows "bounds_from start gss ! r =
           PyTuple [PyInt (start + int (length (concat (take r gss)))),
                    PyInt (start + int (length (concat (take (Suc r) gss))))]"
  using assms
proof (induction gss arbitrary: start r)
  case Nil
  then show ?case by simp
next
  case (Cons gs gss)
  show ?case
  proof (cases r)
    case 0
    then show ?thesis by simp
  next
    case (Suc k)
    then have "k < length gss" using Cons.prems by simp
    from Cons.IH[OF this, of "start + int (length gs)"] show ?thesis
      using Suc by (simp add: algebra_simps)
  qed
qed

lemma concat_slice:
  assumes "r < length gss"
  shows "take (length (concat (take (Suc r) gss)) - length (concat (take r gss)))
           (drop (length (concat (take r gss))) (concat gss)) = gss ! r"
proof -
  have split: "gss = take r gss @ gss ! r # drop (Suc r) gss"
    using assms by (rule id_take_nth_drop)
  have c: "concat gss = concat (take r gss) @ gss ! r @ concat (drop (Suc r) gss)"
    by (subst split) simp
  have t: "take (Suc r) gss = take r gss @ [gss ! r]"
    using assms by (rule take_Suc_conv_app_nth)
  show ?thesis by (simp add: c t)
qed

lemma concat_take_le: "length (concat (take r gss)) \<le> length (concat gss)"
proof -
  have "concat gss = concat (take r gss) @ concat (drop r gss)"
    by (metis append_take_drop_id concat_append)
  then show ?thesis by (metis le_add1 length_append)
qed

lemma py_slice_list_shard:
  assumes "r < length gss"
  shows "py_slice_list (concat gss) (int (length (concat (take r gss))))
           (int (length (concat (take (Suc r) gss)))) = gss ! r"
  using concat_slice[OF assms] concat_take_le[of r gss] concat_take_le[of "Suc r" gss]
  by (simp add: py_slice_list_def slice_bound_def Let_def min_def)

lemma write_shared_params:
  "map params (write_shared shared n locals recs) = map params recs"
  "length (write_shared shared n locals recs) = length recs"
  by (induction recs rule: rev_induct) (simp_all add: write_shared_def enumerate_append_eq)

lemma sync_param_groups_frame:
  "rank (sync_param_groups b s) = rank s"
  "world_size (sync_param_groups b s) = world_size s"
  "all_states (sync_param_groups b s) = all_states s"
  "grad (sync_param_groups b s) = grad s"
  "shared_from (sync_param_groups b s) = shared_from s"
  "warnings (sync_param_groups b s) = warnings s"
  by (simp_all add: sync_param_groups_def Let_def)

lemma sync_param_groups_memo:
  "map (map params) (partition_memo (sync_param_groups b s)) = map (map params) (partition_memo s)"
  "length (partition_memo (sync_param_groups b s)) = length (partition_memo s)"
  "partition_memo (sync_param_groups True s) = partition_memo s"
  by (simp_all add: sync_param_groups_def Let_def map_update write_shared_params list_update_same_conv)

lemma sync_param_groups_memo_Nil:
  "partition_memo (sync_param_groups b s) = [] \<longleftrightarrow> partition_memo s = []"
  using sync_param_groups_memo(2)[of b s] by (metis length_0_conv)

lemma sync_param_groups_False_groups:
  "param_groups (sync_param_groups False s) = param_groups s"
  by (simp add: sync_param_groups_def Let_def)

lemma py_nth_pair:
  "py_nth [x, y] 0 = Inr x"
  "py_nth [x, y] 1 = Inr y"
  by (simp_all add: py_nth_def)

lemma example_shards_ok: "list_all shard_ok example_shards"
  by (simp add: example_shards_def shard_ok_def)



text \<open>
  C8. For a non-empty collected shard list (its shards being optimizer state dicts) and
  every rank \<open>r\<close> below its length, \<open>rank_local_state_dict(r, .)\<close> applied to the dict
  that \<open>state_dict\<close> returns gives exactly the \<open>"state"\<close> and \<open>"param_groups"\<close> entries
  of the \<open>r\<close>-th collected shard. The dict's \<open>"partition"\<close> holds the cumulative
  \<open>(start, end)\<close> group counts of the shards and its \<open>"param_groups"\<close> the shards' groups
  one after the other.
\<close>

theorem rank_local_state_dict_of_state_dict:
  assumes "all_states s \<noteq> []" and "list_all shard_ok (all_states s)"
    and "r < length (all_states s)"
  shows "\<exists>d. state_dict sd s = (Inr d, s)
           \<and> d ''partition'' = Some (PyList (bounds_from 0 (map groups_of (all_states s))))
           \<and> d ''param_groups'' = Some (PyList (concat (map groups_of (all_states s))))
           \<and> rank_local_state_dict (int r) d =
               Inr ((all_states s ! r) |` {''state'', ''param_groups''})"
proof -
  let ?ss = "all_states s"
  let ?gss = "map groups_of ?ss"
  let ?d = "[''state'' \<mapsto> PyList (map state_of ?ss),
             ''param_groups'' \<mapsto> PyList (concat ?gss),
             ''partition'' \<mapsto> PyList (bounds_from 0 ?gss),
             ''local_state_dict'' \<mapsto> PyBool False]"
  have sd: "state_dict sd s = (Inr ?d, s)" by (rule state_dict_global[OF assms(1,2)])
  have r: "r < length ?gss" using assms(3) by simp
  have ok: "shard_ok (?ss ! r)" using assms(2,3) by (simp add: list_all_length)
  have b: "py_nth (bounds_from 0 ?gss) (int r) =
             Inr (PyTuple [PyInt (int (length (concat (take r ?gss)))),
                           PyInt (int (length (concat (take (Suc r) ?gss))))])"
    using bounds_from_nth[OF r, of 0] r by (simp add: py_nth_def bounds_from_length)
  have st: "py_nth (map state_of ?ss) (int r) = Inr (state_of (?ss ! r))"
    using assms(3) by (simp add: py_nth_def)
  have sl: "py_slice_list (concat ?gss) (int (length (concat (take r ?gss))))
              (int (length (concat (take (Suc r) ?gss)))) = groups_of (?ss ! r)"
    using py_slice_list_shard[OF r] assms(3) by simp
  have res: "rank_local_state_dict (int r) ?d =
               Inr [''state'' \<mapsto> state_of (?ss ! r), ''param_groups'' \<mapsto> PyList (groups_of (?ss ! r))]"
    by (simp add: rank_local_state_dict_def py_slice_def b st sl py_nth_pair)
  have "[''state'' \<mapsto> state_of (?ss ! r), ''param_groups'' \<mapsto> PyList (groups_of (?ss ! r))]
          = (?ss ! r) |` {''state'', ''param_groups''}"
    using shard_ok_fields[OF ok] by (auto simp: restrict_map_def fun_eq_iff)
  with res have rl: "rank_local_state_dict (int r) ?d = Inr ((?ss ! r) |` {''state'', ''param_groups''})"
    by simp
  have pt: "?d ''partition'' = Some (PyList (bounds_from 0 ?gss))"
    and pg: "?d ''param_groups'' = Some (PyList (concat ?gss))"
    by simp_all
  show ?thesis
    by (intro exI[of _ ?d] conjI) (rule sd pt pg rl)+
qed

theorem rank_local_state_dict_of_state_dict_witness:
  "all_states (example_oss\<lparr>all_states := example_shards\<rparr>) \<noteq> []
   \<and> list_all shard_ok (all_states (example_oss\<lparr>all_states := example_shards\<rparr>))
   \<and> 1 < length (all_states (example_oss\<lparr>all_states := example_shards\<rparr>))
   \<and> (\<exists>d e. state_dict example_sd (example_oss\<lparr>all_states := example_shards\<rparr>) =
              (Inr d, example_oss\<lparr>all_states := example_shards\<rparr>)
          \<and> rank_local_state_dict 1 d = Inr e
          \<and> e ''state'' = Some (PyInt 200)
          \<and> e ''param_groups'' = Some (PyList [PyInt 20])
          \<and> e ''partition'' = None)"
proof -
  let ?s2 = "example_oss\<lparr>all_states := example_shards\<rparr>"
  have n: "all_states ?s2 \<noteq> []" "list_all shard_ok (all_states ?s2)" "1 < length (all_states ?s2)"
    using example_shards_ok by (simp_all add: example_shards_def)
  from rank_local_state_dict_of_state_dict[OF n, of example_sd] obtain d where
    d: "state_dict example_sd ?s2 = (Inr d, ?s2)"
       "rank_local_state_dict (int 1) d = Inr ((all_states ?s2 ! 1) |` {''state'', ''param_groups''})"
    by blast
  let ?e = "(all_states ?s2 ! 1) |` {''state'', ''param_groups''}"
  have "?e ''state'' = Some (PyInt 200)" "?e ''param_groups'' = Some (PyList [PyInt 20])"
    "?e ''partition'' = None"
    by (simp_all add: example_shards_def)
  with d n show ?thesis by auto
qed

section \<open>Gradients freed by the step\<close>

lemma clear_on_clear_on: "clear_on A (clear_on B gr) = clear_on (A \<union> B) gr"
  by (auto simp: clear_on_def fun_eq_iff)

lemma clear_on_empty: "clear_on {} gr = gr"
  by (simp add: clear_on_def)

lemma free_grads_clear: "free_grads ts gr = clear_on (set ts) gr"
proof (induction ts arbitrary: gr)
  case Nil
  then show ?case by (simp add: free_grads_def clear_on_empty)
next
  case (Cons t ts)
  have one: "gr(t := None) = clear_on {t} gr" by (auto simp: clear_on_def fun_eq_iff)
  have "free_grads (t # ts) gr = free_grads ts (gr(t := None))" by (simp add: free_grads_def)
  also have "\<dots> = clear_on (set ts) (clear_on {t} gr)" unfolding Cons.IH one ..
  also have "\<dots> = clear_on (set (t # ts)) gr" by (simp add: clear_on_clear_on Un_commute)
  finally show ?case .
qed

lemma free_records:
  "fold (\<lambda>p st'. st'\<lparr>grad := free_grads (params p) (grad st')\<rparr>) recs st =
     st\<lparr>grad := clear_on (set (concat (map params recs))) (grad st)\<rparr>"
proof (induction recs arbitrary: st)
  case Nil
  then show ?case by (simp add: clear_on_empty)
next
  case (Cons g recs)
  let ?F = "\<lambda>p st'. st'\<lparr>grad := free_grads (params p) (grad st')\<rparr>"
  let ?st1 = "st\<lparr>grad := free_grads (params g) (grad st)\<rparr>"
  have "fold ?F (g # recs) st = fold ?F recs ?st1" by simp
  also have "\<dots> = ?st1\<lparr>grad := clear_on (set (concat (map params recs))) (grad ?st1)\<rparr>"
    by (rule Cons.IH)
  also have "\<dots> = st\<lparr>grad := clear_on (set (concat (map params (g # recs)))) (grad st)\<rparr>"
    by (simp add: free_grads_clear clear_on_clear_on Un_commute)
  finally show ?case .
qed

lemma other_params_Nil: "other_params k [] rk = {}"
  by (simp add: other_params_def)

lemma other_params_Cons:
  "other_params k (x # xs) rk =
     (if k \<noteq> rk then set (concat (map params x)) else {}) \<union> other_params (Suc k) xs rk"
proof (intro set_eqI iffI)
  fix t assume "t \<in> other_params k (x # xs) rk"
  then obtain i where i: "i < length (x # xs)" "k + i \<noteq> rk"
    "t \<in> set (concat (map params ((x # xs) ! i)))"
    unfolding other_params_def by blast
  show "t \<in> (if k \<noteq> rk then set (concat (map params x)) else {}) \<union> other_params (Suc k) xs rk"
  proof (cases i)
    case 0
    with i show ?thesis by simp
  next
    case (Suc j)
    with i have "j < length xs \<and> Suc k + j \<noteq> rk \<and> t \<in> set (concat (map params (xs ! j)))"
      by simp
    then have "t \<in> other_params (Suc k) xs rk" unfolding other_params_def by blast
    then show ?thesis by simp
  qed
next
  fix t assume "t \<in> (if k \<noteq> rk then set (concat (map params x)) else {}) \<union> other_params (Suc k) xs rk"
  then consider (a) "k \<noteq> rk" "t \<in> set (concat (map params x))" | (b) "t \<in> other_params (Suc k) xs rk"
    by (auto split: if_splits)
  then show "t \<in> other_params k (x # xs) rk"
  proof cases
    case a
    then have "0 < length (x # xs) \<and> k + 0 \<noteq> rk \<and> t \<in> set (concat (map params ((x # xs) ! 0)))"
      by simp
    then show ?thesis unfolding other_params_def by blast
  next
    case b
    then obtain j where "j < length xs" "Suc k + j \<noteq> rk" "t \<in> set (concat (map params (xs ! j)))"
      unfolding other_params_def by blast
    then have "Suc j < length (x # xs) \<and> k + Suc j \<noteq> rk
                \<and> t \<in> set (concat (map params ((x # xs) ! Suc j)))"
      by simp
    then show ?thesis unfolding other_params_def by blast
  qed
qed

lemma free_ranks:
  "fold (\<lambda>(rnk, partition) st.
           if rnk = rank st then st
           else fold (\<lambda>p st'. st'\<lparr>grad := free_grads (params p) (grad st')\<rparr>) partition st)
        (enumerate k xs) st =
     st\<lparr>grad := clear_on (other_params k xs (rank st)) (grad st)\<rparr>"
proof (induction xs arbitrary: k st)
  case Nil
  then show ?case by (simp add: other_params_Nil clear_on_empty)
next
  case (Cons x xs)
  let ?F = "\<lambda>(rnk, partition) st.
           if rnk = rank st then st
           else fold (\<lambda>p st'. st'\<lparr>grad := free_grads (params p) (grad st')\<rparr>) partition st"
  let ?A = "if k \<noteq> rank st then set (concat (map params x)) else {}"
  let ?st1 = "st\<lparr>grad := clear_on ?A (grad st)\<rparr>"
  have one: "?F (k, x) st = ?st1"
    by (simp add: free_records clear_on_empty)
  have "fold ?F (enumerate k (x # xs)) st = fold ?F (enumerate (Suc k) xs) (?F (k, x) st)"
    by simp
  also have "\<dots> = fold ?F (enumerate (Suc k) xs) ?st1" unfolding one ..
  also have "\<dots> = ?st1\<lparr>grad := clear_on (other_params (Suc k) xs (rank ?st1)) (grad ?st1)\<rparr>"
    by (rule Cons.IH)
  also have "\<dots> = st\<lparr>grad := clear_on (other_params k (x # xs) (rank st)) (grad st)\<rparr>"
    by (simp add: other_params_Cons clear_on_clear_on Un_commute)
  finally show ?case .
qed

lemma free_other_grads_result:
  assumes "partition_parameters numel s = Inr (part, s')"
  shows "free_other_grads numel s =
           Inr (s'\<lparr>grad := clear_on (other_params 0 part (rank s')) (grad s')\<rparr>)"
  using free_ranks[of 0 part s'] assms
  by (simp add: free_other_grads_def)

lemma mset_concat_params:
  "mset (concat (map params recs)) = (\<Sum>i<length recs. mset (params (recs ! i)))"
proof -
  have "map params recs = map (\<lambda>i. params (recs ! i)) [0..<length recs]"
    by (intro nth_equalityI) simp_all
  then show ?thesis using mset_concat_upt[of "\<lambda>i. params (recs ! i)" "length recs"] by simp
qed

lemma fresh_partition_total:
  assumes "0 < ws"
  shows "\<exists>part sizes.
           partition_groups numel ws gs (replicate ws [], replicate ws 0) = Inr (part, sizes)
         \<and> length part = ws
         \<and> (\<Sum>r<ws. mset (rank_params part r)) = mset (concat (map params gs))"
proof -
  have l: "length (replicate ws ([]::'a param_group list)) = ws" "length (replicate ws (0::nat)) = ws"
    "\<forall>r<ws. length (replicate ws ([]::'a param_group list) ! r) = 0"
    by simp_all
  from partition_groups_total[OF l(1,2) assms l(3), of numel gs] obtain part sizes where
    p: "partition_groups numel ws gs (replicate ws [], replicate ws 0) = Inr (part, sizes)"
       "length part = ws"
       "\<forall>r<ws. length (part ! r) = length gs"
       "\<forall>i<length gs. mset (concat (map (\<lambda>r. params (part ! r ! i)) [0..<ws])) = mset (params (gs ! i))"
    by auto
  have "(\<Sum>r<ws. mset (rank_params part r)) = (\<Sum>r<ws. \<Sum>i<length gs. mset (params (part ! r ! i)))"
    using p(3) by (intro sum.cong) (simp_all add: rank_params_def mset_concat_params)
  also have "\<dots> = (\<Sum>i<length gs. \<Sum>r<ws. mset (params (part ! r ! i)))"
    by (rule sum.swap)
  also have "\<dots> = (\<Sum>i<length gs. mset (params (gs ! i)))"
    using p(4) by (intro sum.cong) (simp_all add: mset_concat_upt)
  also have "\<dots> = mset (concat (map params gs))"
    by (simp add: mset_concat_params)
  finally show ?thesis using p(1,2) by blast
qed

lemma ranks_disjoint:
  fixes n :: nat
  assumes tot: "(\<Sum>r<n. mset (A r)) = mset xs" and d: "distinct xs"
    and r: "r < n" "r' < n" "r \<noteq> r'" and t: "t \<in> set (A r)"
  shows "t \<notin> set (A r')"
proof
  assume t': "t \<in> set (A r')"
  let ?f = "\<lambda>k. count (mset (A k)) t"
  have "count (mset xs) t = (\<Sum>k<n. ?f k)"
    unfolding tot[symmetric] by (simp add: count_sum)
  moreover have "sum ?f {r, r'} \<le> sum ?f {..<n}"
    using r by (intro sum_mono2) auto
  moreover have "sum ?f {r, r'} = ?f r + ?f r'" using r(3) by simp
  moreover have "1 \<le> ?f r" "1 \<le> ?f r'" using t t' by (simp_all add: Suc_le_eq)
  ultimately have "2 \<le> count (mset xs) t" by linarith
  moreover have "count (mset xs) t \<le> 1" using d by (simp add: distinct_count_atmost_1)
  ultimately show False by simp
qed

lemma rank_params_cong:
  assumes "map (map params) p1 = map (map params) p2" "r < length p1"
  shows "rank_params p1 r = rank_params p2 r"
proof -
  have "map params (p1 ! r) = map (map params) p1 ! r" using assms(2) by simp
  also have "\<dots> = map (map params) p2 ! r" using assms(1) by simp
  also have "\<dots> = map params (p2 ! r)"
    using assms by (metis length_map nth_map)
  finally show ?thesis by (simp add: rank_params_def)
qed

lemma partition_parameters_consistent:
  assumes "memo_consistent numel s" "0 < world_size s"
  shows "\<exists>part s'. partition_parameters numel s = Inr (part, s')
           \<and> s' = s\<lparr>partition_memo := part\<rparr>
           \<and> length part = world_size s
           \<and> (\<Sum>r<world_size s. mset (rank_params part r)) = mset (concat (map params (param_groups s)))"
proof -
  let ?ws = "world_size s"
  from fresh_partition_total[OF assms(2), of numel "param_groups s"] obtain pf sizes where
    f: "partition_groups numel ?ws (param_groups s) (replicate ?ws [], replicate ?ws 0) = Inr (pf, sizes)"
       "length pf = ?ws"
       "(\<Sum>r<?ws. mset (rank_params pf r)) = mset (concat (map params (param_groups s)))"
    by blast
  show ?thesis
  proof (cases "partition_memo s = []")
    case True
    then have "partition_parameters numel s = Inr (pf, s\<lparr>partition_memo := pf\<rparr>)"
      using f(1) by (simp add: partition_parameters_def)
    with f(2,3) show ?thesis by blast
  next
    case False
    then have eq: "map (map params) (partition_memo s) = map (map params) pf"
      using assms(1) f(1) by (simp add: memo_consistent_def)
    then have len: "length (partition_memo s) = ?ws"
      using f(2) by (metis length_map)
    have "\<And>r. r < ?ws \<Longrightarrow> rank_params (partition_memo s) r = rank_params pf r"
      using rank_params_cong[OF eq] len by simp
    then have "(\<Sum>r<?ws. mset (rank_params (partition_memo s) r)) = (\<Sum>r<?ws. mset (rank_params pf r))"
      by (intro sum.cong) simp_all
    moreover have "partition_parameters numel s = Inr (partition_memo s, s)"
      using False by (simp add: partition_parameters_def)
    moreover have "s = s\<lparr>partition_memo := partition_memo s\<rparr>" by simp
    ultimately show ?thesis using len f(3) by metis
  qed
qed

lemma memo_consistent_sync:
  "memo_consistent numel (sync_param_groups False s) = memo_consistent numel s"
  by (simp add: memo_consistent_def sync_param_groups_frame sync_param_groups_False_groups
      sync_param_groups_memo sync_param_groups_memo_Nil split: sum.splits prod.splits)

lemma example_partition_synced:
  "partition_parameters example_numel (sync_param_groups False example_oss) =
     Inr ([[\<lparr>params = [0], hyper = [''lr'' \<mapsto> 1]\<rparr>], [\<lparr>params = [1, 2], hyper = [''lr'' \<mapsto> 1]\<rparr>]],
          (sync_param_groups False example_oss)\<lparr>partition_memo :=
            [[\<lparr>params = [0], hyper = [''lr'' \<mapsto> 1]\<rparr>], [\<lparr>params = [1, 2], hyper = [''lr'' \<mapsto> 1]\<rparr>]]\<rparr>)"
proof -
  have m: "partition_memo (sync_param_groups False example_oss) = []"
    "world_size (sync_param_groups False example_oss) = 2"
    "param_groups (sync_param_groups False example_oss) =
       [\<lparr>params = [0, 1, 2], hyper = [''lr'' \<mapsto> 1]\<rparr>]"
    by (simp_all add: sync_param_groups_frame sync_param_groups_False_groups
        sync_param_groups_memo_Nil example_oss_def)
  show ?thesis
    by (simp add: partition_parameters_def m example_numel_def append_group_records_def upt2
        numeral_2_eq_2)
qed

text \<open>
  C9. In a state whose memo is empty or consistent with the global groups, whose rank
  is a rank of the world, and whose global groups name no parameter twice, \<open>step\<close>
  calls the wrapped optimizer in the state \<open>s1\<close> that \<open>_free_other_grads\<close> leaves after
  the hyperparameter sync. In \<open>s1\<close> the partition in force assigns every parameter of
  the global groups to the ranks, the gradient of every parameter assigned to another
  rank is \<open>None\<close>, and the gradient of every parameter assigned to this rank is what it
  was before the step.
\<close>

theorem step_frees_other_grads_only:
  assumes "memo_consistent numel s" and "rank s < world_size s"
    and "distinct (concat (map params (param_groups s)))"
  shows "\<exists>s1 part. free_other_grads numel (sync_param_groups False s) = Inr s1
           \<and> step numel optim_step broadcast_shards closure s =
               (case optim_step closure s1 of
                  Inl e \<Rightarrow> Inl e
                | Inr (loss, s2) \<Rightarrow>
                    (case broadcast_shards s2 of
                       Inl e \<Rightarrow> Inl e
                     | Inr s3 \<Rightarrow> Inr (loss, sync_param_groups True s3)))
           \<and> partition_parameters numel s1 = Inr (part, s1)
           \<and> length part = world_size s
           \<and> (\<Sum>r<world_size s. mset (rank_params part r)) = mset (concat (map params (param_groups s)))
           \<and> (\<forall>r<world_size s. r \<noteq> rank s \<longrightarrow> (\<forall>t\<in>set (rank_params part r). grad s1 t = None))
           \<and> (\<forall>t\<in>set (rank_params part (rank s)). grad s1 t = grad s t)"
proof -
  let ?s0 = "sync_param_groups False s"
  let ?ws = "world_size s"
  have ws: "0 < world_size ?s0" using assms(2) by (simp add: sync_param_groups_frame)
  have mc: "memo_consistent numel ?s0" using assms(1) by (simp add: memo_consistent_sync)
  from partition_parameters_consistent[OF mc ws] obtain part s' where
    p: "partition_parameters numel ?s0 = Inr (part, s')"
       "s' = ?s0\<lparr>partition_memo := part\<rparr>"
       "length part = ?ws"
       "(\<Sum>r<?ws. mset (rank_params part r)) = mset (concat (map params (param_groups s)))"
    by (auto simp: sync_param_groups_frame sync_param_groups_False_groups)
  let ?O = "other_params 0 part (rank s)"
  let ?s1 = "s'\<lparr>grad := clear_on ?O (grad s)\<rparr>"
  have s'g: "grad s' = grad s" "rank s' = rank s"
    using p(2) by (simp_all add: sync_param_groups_frame)
  have free: "free_other_grads numel ?s0 = Inr ?s1"
    using free_other_grads_result[OF p(1)] s'g by simp
  have stp: "step numel optim_step broadcast_shards closure s =
               (case optim_step closure ?s1 of
                  Inl e \<Rightarrow> Inl e
                | Inr (loss, s2) \<Rightarrow>
                    (case broadcast_shards s2 of
                       Inl e \<Rightarrow> Inl e
                     | Inr s3 \<Rightarrow> Inr (loss, sync_param_groups True s3)))"
    by (simp add: step_def free)
  have memo1: "partition_memo ?s1 = part" using p(2) by simp
  have "part \<noteq> []" using p(3) assms(2) by auto
  then have pp: "partition_parameters numel ?s1 = Inr (part, ?s1)"
    using memo1 by (simp add: partition_parameters_def)
  have others: "\<forall>r<?ws. r \<noteq> rank s \<longrightarrow> (\<forall>t\<in>set (rank_params part r). grad ?s1 t = None)"
  proof (intro allI impI ballI)
    fix r t assume r: "r < ?ws" "r \<noteq> rank s" and t: "t \<in> set (rank_params part r)"
    then have "t \<in> ?O" using p(3) by (auto simp: other_params_def rank_params_def)
    then show "grad ?s1 t = None" by (simp add: clear_on_def)
  qed
  have own: "\<forall>t\<in>set (rank_params part (rank s)). grad ?s1 t = grad s t"
  proof
    fix t assume t: "t \<in> set (rank_params part (rank s))"
    have "t \<notin> ?O"
    proof
      assume "t \<in> ?O"
      then obtain i where i: "i < length part" "i \<noteq> rank s" "t \<in> set (rank_params part i)"
        by (auto simp: other_params_def rank_params_def)
      from ranks_disjoint[OF p(4) assms(3) assms(2) _ _ t, of i] i p(3)
      show False by auto
    qed
    then show "grad ?s1 t = grad s t" by (simp add: clear_on_def)
  qed
  show ?thesis
    by (intro exI[of _ ?s1] exI[of _ part] conjI) (rule free stp pp p(3) p(4) others own)+
qed

theorem step_frees_other_grads_only_witness:
  "memo_consistent example_numel example_oss
   \<and> rank example_oss < world_size example_oss
   \<and> distinct (concat (map params (param_groups example_oss)))
   \<and> (\<exists>s1. free_other_grads example_numel (sync_param_groups False example_oss) = Inr s1
         \<and> grad s1 0 = Some 7 \<and> grad s1 1 = None \<and> grad s1 2 = None)"
proof -
  let ?P = "[[\<lparr>params = [0], hyper = [''lr'' \<mapsto> (1::int)]\<rparr>], [\<lparr>params = [1, 2], hyper = [''lr'' \<mapsto> 1]\<rparr>]]"
  have h: "memo_consistent example_numel example_oss"
    "rank example_oss < world_size example_oss"
    "distinct (concat (map params (param_groups example_oss)))"
    by (simp_all add: memo_consistent_def example_oss_def)
  from step_frees_other_grads_only[OF h] obtain s1 part where
    s: "free_other_grads example_numel (sync_param_groups False example_oss) = Inr s1"
       "partition_parameters example_numel s1 = Inr (part, s1)"
       "\<forall>r<world_size example_oss. r \<noteq> rank example_oss \<longrightarrow>
           (\<forall>t\<in>set (rank_params part r). grad s1 t = None)"
       "\<forall>t\<in>set (rank_params part (rank example_oss)). grad s1 t = grad example_oss t"
    by blast
  have "partition_memo s1 = ?P"
    using s(1) free_other_grads_result[OF example_partition_synced] by auto
  then have part: "part = ?P" using s(2) by (simp add: partition_parameters_def)
  have rp: "rank_params part 0 = [0]" "rank_params part 1 = [1, 2]"
    by (simp_all add: part rank_params_def)
  have ex: "world_size example_oss = 2" "rank example_oss = 0" "grad example_oss 0 = Some 7"
    by (simp_all add: example_oss_def)
  have "grad s1 0 = Some 7" using s(4) rp(1) ex by simp
  moreover have "1 < world_size example_oss \<and> 1 \<noteq> rank example_oss" using ex by simp
  then have "\<forall>t\<in>set (rank_params part 1). grad s1 t = None" using s(3) by blast
  then have "grad s1 1 = None" "grad s1 2 = None" using rp(2) by simp_all
  ultimately show ?thesis using h s(1) by blast
qed

end
